theory Spec2Isabelle
  imports Complex_Main "HOL-Library.Sublist"
begin

section \<open>Declarations taken from the header\<close>

text \<open>
  \<^verbatim>\<open>RFInterface.cpp\<close> includes \<^verbatim>\<open>RFInterface.h\<close>, which declares
  \<^verbatim>\<open>struct control_input\<close>, the telemetry record \<^verbatim>\<open>state\<close>, the array
  \<^verbatim>\<open>reply_buffer\<close> and the table \<^verbatim>\<open>keytable\<close> of \<^verbatim>\<open>num_keys\<close> entries. The
  fields of \<^verbatim>\<open>control_input\<close> are the six that \<^verbatim>\<open>exchange_data\<close> reads. A
  \<^verbatim>\<open>double\<close> is modelled by the real number it denotes: the code copies, prints
  and parses these values and never computes with them.
\<close>

record control_input =
  aileron :: real
  elevator :: real
  throttle :: real
  rudder :: real
  flaps :: real
  gear :: real

text \<open>
  What the translation unit takes from outside: the size of \<^verbatim>\<open>reply_buffer\<close>
  (\<^verbatim>\<open>sizeof(reply_buffer)\<close>), the key table (each entry a tag and the slot of
  \<^verbatim>\<open>state\<close> its reference designates), the text that \<^verbatim>\<open>operator<<\<close> prints for a
  \<^verbatim>\<open>double\<close>, and \<^verbatim>\<open>std::stod\<close>, which is \<open>None\<close> where it throws.
\<close>

record 'r platform =
  reply_buffer_size :: nat
  keytable :: "(string \<times> 'r) list"
  print_double :: "real \<Rightarrow> string"
  stod :: "string \<Rightarrow> real option"

section \<open>Encoding the control input\<close>

text \<open>
  The array \<^verbatim>\<open>channels\<close> of \<^verbatim>\<open>exchange_data\<close>: twelve entries initialised to
  0.5, then the six assignments \<^verbatim>\<open>channels[0] = input.aileron\<close> to
  \<^verbatim>\<open>channels[5] = input.gear\<close>, in the order of the source.
\<close>

definition channels_init :: "real list" where
  "channels_init = [0.5, 0.5, 0.5, 0.5, 0.5, 0.5, 0.5, 0.5, 0.5, 0.5, 0.5, 0.5]"

definition channels :: "control_input \<Rightarrow> real list" where
  "channels input =
     (let c0 = channels_init;
          c1 = c0[0 := aileron input];
          c2 = c1[1 := elevator input];
          c3 = c2[2 := throttle input];
          c4 = c3[3 := rudder input];
          c5 = c4[4 := flaps input];
          c6 = c5[5 := gear input]
      in c6)"

text \<open>The loop \<^verbatim>\<open>for (int i = 0; i < 12; i++) body << "<item>" << channels[i] << "</item>"\<close>.\<close>

fun items :: "(real \<Rightarrow> string) \<Rightarrow> real list \<Rightarrow> nat \<Rightarrow> nat \<Rightarrow> string" where
  "items pr cs i 0 = []"
| "items pr cs i (Suc k) = ''<item>'' @ pr (cs ! i) @ ''</item>'' @ items pr cs (Suc i) k"

definition exchange_body :: "(real \<Rightarrow> string) \<Rightarrow> control_input \<Rightarrow> string" where
  "exchange_body pr input =
     ''<pControlInputs>'' @ ''<m-selectedChannels>4095</m-selectedChannels>'' @
     ''<m-channelValues-0to1>'' @
     items pr (channels input) 0 12 @
     ''</m-channelValues-0to1>'' @ ''</pControlInputs>''"

section \<open>Decoding the reply\<close>

text \<open>
  \<^verbatim>\<open>strstr(haystack, needle)\<close> of the C library on NUL-terminated strings: the
  offset of the first occurrence of the needle, \<open>None\<close> for the null pointer. A
  pointer into a string is modelled by its offset.
\<close>

fun strstr :: "string \<Rightarrow> string \<Rightarrow> nat option" where
  "strstr [] needle = (if needle = [] then Some 0 else None)"
| "strstr (c # cs) needle =
     (if prefix needle (c # cs) then Some 0 else map_option Suc (strstr cs needle))"

text \<open>
  The lambda \<^verbatim>\<open>extract_value\<close> of \<^verbatim>\<open>parse_reply\<close>. \<open>start\<close> is the pointer
  advanced by \<^verbatim>\<open>search_tag.length()\<close>, \<open>len\<close> is \<^verbatim>\<open>end - start\<close>, and the
  \<^verbatim>\<open>catch (...)\<close> around \<^verbatim>\<open>std::stod\<close> is the \<open>None\<close> branch.
\<close>

definition extract_value :: "(string \<Rightarrow> real option) \<Rightarrow> string \<Rightarrow> string \<Rightarrow> real" where
  "extract_value sd xml tag =
     (let search_tag = ''<'' @ tag @ ''>'';
          end_tag = ''</'' @ tag @ ''>''
      in case strstr xml search_tag of
           None \<Rightarrow> 0
         | Some start0 \<Rightarrow>
             let start = start0 + length search_tag
             in (case strstr (drop start xml) end_tag of
                   None \<Rightarrow> 0
                 | Some len \<Rightarrow>
                     let value_str = take len (drop start xml)
                     in if value_str = ''true'' then 1
                        else if value_str = ''false'' then 0
                        else (case sd value_str of Some d \<Rightarrow> d | None \<Rightarrow> 0)))"

text \<open>
  The loop of \<^verbatim>\<open>parse_reply\<close> over the key table:
  \<^verbatim>\<open>keytable[i].ref = extract_value(reply, keytable[i].key)\<close>. The telemetry record
  \<^verbatim>\<open>state\<close> is a function from slots to values.
\<close>

fun parse_keys ::
  "(string \<Rightarrow> real option) \<Rightarrow> string \<Rightarrow> (string \<times> 'r) list \<Rightarrow> ('r \<Rightarrow> real) \<Rightarrow> ('r \<Rightarrow> real)" where
  "parse_keys sd reply [] st = st"
| "parse_keys sd reply ((key, ref) # kt) st =
     parse_keys sd reply kt (st(ref := extract_value sd reply key))"

definition parse_reply :: "'r platform \<Rightarrow> string \<Rightarrow> ('r \<Rightarrow> real) \<Rightarrow> ('r \<Rightarrow> real)" where
  "parse_reply p reply st = parse_keys (stod p) reply (keytable p) st"


section \<open>System calls\<close>

text \<open>
  The calls the code makes on the operating system and the writes it makes into
  \<^verbatim>\<open>reply_buffer\<close> are recorded as events, in the order in which they happen.
  \<open>RecvCall fd off len\<close> is \<^verbatim>\<open>recv(fd, reply_buffer + off, len, 0)\<close>, and
  \<open>BufWrite off len\<close> is a write by the program itself of \<open>len\<close> bytes at
  \<^verbatim>\<open>reply_buffer + off\<close> (\<^verbatim>\<open>memset\<close> and the terminating NUL). The calls to
  \<^verbatim>\<open>setsockopt\<close>, whose results the code ignores, are left out.
\<close>

datatype event =
    SocketCall
  | ConnectCall int
  | SendCall int string
  | SelectCall int nat nat
  | RecvCall int nat nat
  | BufWrite nat nat
  | CloseCall int

section \<open>The socket pool\<close>

text \<open>
  What the operating system answers to the calls of one \<^verbatim>\<open>create_connection\<close>:
  the results of \<^verbatim>\<open>socket\<close>, \<^verbatim>\<open>inet_pton\<close> and \<^verbatim>\<open>connect\<close>.
\<close>

record os_outcome =
  socket_res :: int
  pton_res :: int
  connect_res :: int

definition create_connection :: "os_outcome \<Rightarrow> int \<times> event list" where
  "create_connection os =
     (let sock = socket_res os
      in if sock < 0 then (- 1, [SocketCall])
         else if pton_res os \<le> 0 then (- 1, [SocketCall, CloseCall sock])
         else if connect_res os < 0 then (- 1, [SocketCall, ConnectCall sock, CloseCall sock])
         else (sock, [SocketCall, ConnectCall sock]))"

text \<open>
  \<^verbatim>\<open>get_socket\<close>, which runs under the lock of the pool. The queue
  \<^verbatim>\<open>available_sockets\<close> is a list with its front first. The result is the
  descriptor, the queue afterwards and the system calls made.
\<close>

definition get_socket :: "os_outcome \<Rightarrow> int list \<Rightarrow> int \<times> int list \<times> event list" where
  "get_socket os available_sockets =
     (if available_sockets = []
      then (fst (create_connection os), available_sockets, snd (create_connection os))
      else (hd available_sockets, tl available_sockets, []))"

text \<open>
  The thread \<^verbatim>\<open>maintain_pool\<close> runs beside the callers of \<^verbatim>\<open>get_socket\<close>. Its
  loop body has three parts, and the lock is released between them: reading the size
  of the queue into \<^verbatim>\<open>current_size\<close>; comparing it with \<^verbatim>\<open>max_pool_size\<close> and
  creating a connection; pushing the new descriptor. \<open>refill_pc\<close> says where the
  thread stands, with its local variable.
\<close>

datatype refill_pc = LoopHead | Checked nat | Created int

record pool_state =
  available_sockets :: "int list"
  max_pool_size :: nat
  shutdown_flag :: bool
  pc :: refill_pc

definition pool_init :: "nat \<Rightarrow> pool_state" where
  "pool_init pool_size =
     \<lparr>available_sockets = [], max_pool_size = pool_size, shutdown_flag = False, pc = LoopHead\<rparr>"

text \<open>
  One atomic step of the whole pool, chosen by the scheduler: a caller runs
  \<^verbatim>\<open>get_socket\<close>, the refill thread runs its next part, or the destructor sets
  \<^verbatim>\<open>shutdown_flag\<close>.
\<close>

datatype pool_action = Acquire os_outcome | Refill os_outcome | Shutdown

fun refill_step :: "os_outcome \<Rightarrow> pool_state \<Rightarrow> pool_state" where
  "refill_step os s =
     (case pc s of
        LoopHead \<Rightarrow>
          if shutdown_flag s then s
          else s\<lparr>pc := Checked (length (available_sockets s))\<rparr>
      | Checked current_size \<Rightarrow>
          if current_size < max_pool_size s
          then (let new_sock = fst (create_connection os)
                in if new_sock \<ge> 0 then s\<lparr>pc := Created new_sock\<rparr> else s\<lparr>pc := LoopHead\<rparr>)
          else s\<lparr>pc := LoopHead\<rparr>
      | Created new_sock \<Rightarrow>
          s\<lparr>available_sockets := available_sockets s @ [new_sock], pc := LoopHead\<rparr>)"

fun pool_step :: "pool_action \<Rightarrow> pool_state \<Rightarrow> pool_state" where
  "pool_step (Acquire os) s =
     s\<lparr>available_sockets := fst (snd (get_socket os (available_sockets s)))\<rparr>"
| "pool_step (Refill os) s = refill_step os s"
| "pool_step Shutdown s = s\<lparr>shutdown_flag := True\<rparr>"

fun pool_run :: "pool_action list \<Rightarrow> pool_state \<Rightarrow> pool_state" where
  "pool_run [] s = s"
| "pool_run (a # as) s = pool_run as (pool_step a s)"


text \<open>
  What holds of the pool at every moment: the queue is within the maximum; after the
  refill thread has read the size, the queue is no longer than the size it read; and
  while the thread holds a new descriptor to push, the queue is below the maximum.
\<close>

definition pool_inv :: "pool_state \<Rightarrow> bool" where
  "pool_inv s \<longleftrightarrow>
     length (available_sockets s) \<le> max_pool_size s \<and>
     (case pc s of
        LoopHead \<Rightarrow> True
      | Checked current_size \<Rightarrow> length (available_sockets s) \<le> current_size
      | Created new_sock \<Rightarrow> length (available_sockets s) < max_pool_size s)"


section \<open>The request framer\<close>

text \<open>
  \<^verbatim>\<open>reply_buffer\<close> is a list of bytes. \<open>c_str\<close> is the NUL-terminated string
  that starts at its first byte, which is what \<^verbatim>\<open>strstr\<close> and the decoder read.
  \<open>write_bytes\<close> stores received bytes at an offset.
\<close>

definition NUL :: char where
  "NUL = CHR 0x00"

definition c_str :: "string \<Rightarrow> string" where
  "c_str buf = takeWhile (\<lambda>c. c \<noteq> NUL) buf"

definition write_bytes :: "nat \<Rightarrow> string \<Rightarrow> string \<Rightarrow> string" where
  "write_bytes off data buf = take off buf @ data @ drop (off + length data) buf"

text \<open>
  The peer is a list of segments waiting on the connection. \<^verbatim>\<open>recv\<close> with room
  for \<open>len\<close> bytes delivers at most \<open>len\<close> bytes of the first segment and leaves
  the rest of it waiting. A result of zero or less (the peer closed, an error, the
  receive timeout) is the empty segment or the end of the list.
\<close>

definition recv_data :: "nat \<Rightarrow> string list \<Rightarrow> string" where
  "recv_data len inc = (case inc of [] \<Rightarrow> [] | seg # segs \<Rightarrow> take len seg)"

definition recv_rest :: "nat \<Rightarrow> string list \<Rightarrow> string list" where
  "recv_rest len inc =
     (case inc of
        [] \<Rightarrow> []
      | seg # segs \<Rightarrow> if length seg \<le> len then segs else drop len seg # segs)"

definition envelope_end :: string where
  "envelope_end = ''</SOAP-ENV:Envelope>''"

text \<open>
  The loop \<^verbatim>\<open>while (total_received < sizeof(reply_buffer) - 1)\<close> of
  \<^verbatim>\<open>soap_request_end\<close>, with the events so far in \<open>ev\<close>. The result is
  \<^verbatim>\<open>total_received\<close>, the buffer and the events. The size of an array is at least
  1, so the subtraction does not wrap.
\<close>

function recv_loop ::
  "nat \<Rightarrow> int \<Rightarrow> nat \<Rightarrow> string \<Rightarrow> string list \<Rightarrow> event list \<Rightarrow> nat \<times> string \<times> event list" where
  "recv_loop cap fd total_received buf inc ev =
     (if total_received < cap - 1 then
        (let len = cap - total_received - 1;
             data = recv_data len inc;
             n = length data;
             ev1 = ev @ [RecvCall fd total_received len]
         in if n = 0 then (total_received, buf, ev1)
            else (let buf1 = write_bytes total_received data buf;
                      total1 = total_received + n
                  in if strstr (c_str buf1) envelope_end \<noteq> None then (total1, buf1, ev1)
                     else recv_loop cap fd total1 buf1 (recv_rest len inc) ev1))
      else (total_received, buf, ev))"
  by pat_completeness auto
termination
  by (relation "measure (\<lambda>(cap, fd, total_received, buf, inc, ev). cap - 1 - total_received)")
    (simp_all del: length_0_conv length_greater_0_conv)

declare recv_loop.simps [simp del]

text \<open>The decimal text of \<^verbatim>\<open>envelope_str.length()\<close>.\<close>

fun dec :: "nat \<Rightarrow> string" where
  "dec n = (if n < 10 then [char_of (48 + n)] else dec (n div 10) @ [char_of (48 + n mod 10)])"

declare dec.simps [simp del]

definition soap_envelope :: "string \<Rightarrow> string \<Rightarrow> string" where
  "soap_envelope action body =
     ''<?xml version='' @ [CHR 0x27] @ ''1.0'' @ [CHR 0x27] @
       '' encoding='' @ [CHR 0x27] @ ''UTF-8'' @ [CHR 0x27] @ ''?>'' @
     ''<soap:Envelope xmlns:soap='' @ [CHR 0x27] @
       ''http://schemas.xmlsoap.org/soap/envelope/'' @ [CHR 0x27] @ '' '' @
     ''xmlns:xsd='' @ [CHR 0x27] @ ''http://www.w3.org/2001/XMLSchema'' @ [CHR 0x27] @ '' '' @
     ''xmlns:xsi='' @ [CHR 0x27] @ ''http://www.w3.org/2001/XMLSchema-instance'' @
       [CHR 0x27] @ ''>'' @
     ''<soap:Body>'' @
     ''<'' @ action @ ''>'' @ body @ ''</'' @ action @ ''>'' @
     ''</soap:Body>'' @
     ''</soap:Envelope>''"

definition http_request :: "string \<Rightarrow> string \<Rightarrow> string" where
  "http_request action body =
     (let envelope_str = soap_envelope action body;
          crlf = [CHR 0x0D, CHR 0x0A]
      in ''POST / HTTP/1.1'' @ crlf @
         ''Soapaction: '' @ [CHR 0x27] @ action @ [CHR 0x27] @ crlf @
         ''Content-Length: '' @ dec (length envelope_str) @ crlf @
         ''Content-Type: text/xml;charset=utf-8'' @ crlf @
         crlf @
         envelope_str)"

text \<open>
  The members of \<^verbatim>\<open>RFInterface\<close> that the code reads and writes, and the events
  so far.
\<close>

record 'r rf_state =
  sock_fd :: int
  controller_started :: bool
  state :: "'r \<Rightarrow> real"
  reply_buffer :: string
  trace :: "event list"

text \<open>The constructor: both \<^verbatim>\<open>memset\<close> calls and the member initialisers.\<close>

definition RFInterface_init :: "'r platform \<Rightarrow> 'r rf_state" where
  "RFInterface_init p =
     \<lparr>sock_fd = - 1, controller_started = False, state = (\<lambda>_. 0),
      reply_buffer = replicate (reply_buffer_size p) NUL, trace = []\<rparr>"

text \<open>
  What the world does during one request: the queue of the pool at the moment
  \<^verbatim>\<open>get_socket\<close> takes the lock, the answers of the operating system should
  \<^verbatim>\<open>get_socket\<close> create a connection, the results of \<^verbatim>\<open>send\<close> and
  \<^verbatim>\<open>select\<close>, and the segments the peer sends.
\<close>

record req_env =
  pool_queue :: "int list"
  create_os :: os_outcome
  send_res :: int
  select_res :: int
  incoming :: "string list"

text \<open>
  \<^verbatim>\<open>soap_request_start\<close>. Both callers pass a format without conversion
  specifications and no further argument, for which \<^verbatim>\<open>vsnprintf\<close> copies at most
  1023 bytes of the format into \<^verbatim>\<open>body\<close>.
\<close>

definition soap_request_start ::
  "req_env \<Rightarrow> string \<Rightarrow> string \<Rightarrow> 'r rf_state \<Rightarrow> bool \<times> 'r rf_state" where
  "soap_request_start e action fmt s =
     (let fd = fst (get_socket (create_os e) (pool_queue e));
          s1 = s\<lparr>sock_fd := fd, trace := trace s @ snd (snd (get_socket (create_os e) (pool_queue e)))\<rparr>
      in if fd < 0 then (False, s1)
         else (let body = (if length fmt > 0 then take 1023 fmt else []);
                   request_str = http_request action body;
                   s2 = s1\<lparr>trace := trace s1 @ [SendCall fd request_str]\<rparr>
               in if send_res e < 0
                  then (False, s2\<lparr>sock_fd := - 1, trace := trace s2 @ [CloseCall fd]\<rparr>)
                  else (True, s2)))"

text \<open>
  \<^verbatim>\<open>soap_request_end\<close>. The result is \<open>None\<close> for \<^verbatim>\<open>nullptr\<close> and otherwise
  the buffer that the returned pointer designates.
\<close>

definition soap_request_end ::
  "'r platform \<Rightarrow> req_env \<Rightarrow> nat \<Rightarrow> 'r rf_state \<Rightarrow> string option \<times> 'r rf_state" where
  "soap_request_end p e timeout_ms s =
     (if sock_fd s < 0 then (None, s)
      else (let fd = sock_fd s;
                cap = reply_buffer_size p;
                s1 = s\<lparr>reply_buffer := replicate cap NUL,
                       trace := trace s @ [BufWrite 0 cap,
                         SelectCall fd (timeout_ms div 1000) ((timeout_ms mod 1000) * 1000)]\<rparr>
            in if select_res e \<le> 0
               then (None, s1\<lparr>sock_fd := - 1, trace := trace s1 @ [CloseCall fd]\<rparr>)
               else (let r = recv_loop cap fd 0 (reply_buffer s1) (incoming e) [];
                         total_received = fst r;
                         s2 = s1\<lparr>reply_buffer := fst (snd r), sock_fd := - 1,
                                trace := trace s1 @ snd (snd r) @ [CloseCall fd]\<rparr>
                     in if total_received > 0
                        then (let s3 = s2\<lparr>reply_buffer := (reply_buffer s2)[total_received := NUL],
                                         trace := trace s2 @ [BufWrite total_received 1]\<rparr>
                              in (Some (reply_buffer s3), s3))
                        else (None, s2))))"

section \<open>The session\<close>

definition exchange_data ::
  "'r platform \<Rightarrow> req_env \<Rightarrow> control_input \<Rightarrow> 'r rf_state \<Rightarrow> 'r rf_state" where
  "exchange_data p e input s =
     (let body_str = exchange_body (print_double p) input;
          started = soap_request_start e ''ExchangeData'' body_str s
      in if \<not> fst started then snd started
         else (let ended = soap_request_end p e 1000 (snd started)
               in case fst ended of
                    Some response \<Rightarrow>
                      (snd ended)\<lparr>state := parse_reply p (c_str response) (state (snd ended))\<rparr>
                  | None \<Rightarrow> snd ended))"

text \<open>
  One call of \<^verbatim>\<open>update\<close> makes up to two requests; \<open>inject_env\<close> is the world
  during the first and \<open>exchange_env\<close> the world during the second.
\<close>

record update_env =
  inject_env :: req_env
  exchange_env :: req_env

definition inject_body :: string where
  "inject_body = ''<a>1</a><b>2</b>''"

definition update ::
  "'r platform \<Rightarrow> update_env \<Rightarrow> control_input \<Rightarrow> 'r rf_state \<Rightarrow> 'r rf_state" where
  "update p e input s =
     (if \<not> controller_started s then
        (let started =
               soap_request_start (inject_env e) ''InjectUAVControllerInterface'' inject_body s
         in if fst started then
              (let ended = soap_request_end p (inject_env e) 1000 (snd started)
               in case fst ended of
                    Some response \<Rightarrow>
                      exchange_data p (exchange_env e) input
                        ((snd ended)\<lparr>controller_started := True\<rparr>)
                  | None \<Rightarrow> snd ended)
            else snd started)
      else exchange_data p (exchange_env e) input s)"




section \<open>The words of the specification\<close>

text \<open>
  The bytes the peer sends before it closes the connection or a read fails: the
  segments up to the first empty one.
\<close>

definition stream_bytes :: "string list \<Rightarrow> string" where
  "stream_bytes inc = concat (takeWhile (\<lambda>seg. seg \<noteq> []) inc)"

text \<open>
  Reading as the specification describes it, on the bytes alone: read repeatedly
  until the room is used up, or the peer closes or fails, or the accumulated bytes
  satisfy \<open>done_at\<close>. The result is the accumulated bytes.
\<close>

function receive_until :: "(string \<Rightarrow> bool) \<Rightarrow> nat \<Rightarrow> string \<Rightarrow> string list \<Rightarrow> string" where
  "receive_until done_at room acc inc =
     (if length acc < room then
        (let data = recv_data (room - length acc) inc
         in if length data = 0 then acc
            else if done_at (acc @ data) then acc @ data
            else receive_until done_at room (acc @ data) (recv_rest (room - length acc) inc))
      else acc)"
  by pat_completeness auto
termination
  by (relation "measure (\<lambda>(done_at, room, acc, inc). room - length acc)")
    (simp_all del: length_0_conv length_greater_0_conv)

declare receive_until.simps [simp del]

text \<open>The two readings of the third condition: in the bytes, and in the C string.\<close>

definition marker_in_bytes :: "string \<Rightarrow> bool" where
  "marker_in_bytes acc \<longleftrightarrow> sublist envelope_end acc"

definition marker_in_c_str :: "string \<Rightarrow> bool" where
  "marker_in_c_str acc \<longleftrightarrow> sublist envelope_end (c_str acc)"

text \<open>An event stays inside a buffer of \<open>cap\<close> bytes.\<close>

fun in_bounds :: "nat \<Rightarrow> event \<Rightarrow> bool" where
  "in_bounds cap (RecvCall fd off len) = (off + len \<le> cap)"
| "in_bounds cap (BufWrite off len) = (off + len \<le> cap)"
| "in_bounds cap ev = True"

text \<open>The requests sent, the connections closed and the waits, in order.\<close>

fun sends :: "event list \<Rightarrow> string list" where
  "sends [] = []"
| "sends (SendCall fd request # evs) = request # sends evs"
| "sends (ev # evs) = sends evs"

fun closes :: "event list \<Rightarrow> int list" where
  "closes [] = []"
| "closes (CloseCall fd # evs) = fd # closes evs"
| "closes (ev # evs) = closes evs"

fun waits :: "event list \<Rightarrow> (nat \<times> nat) list" where
  "waits [] = []"
| "waits (SelectCall fd sec usec # evs) = (sec, usec) # waits evs"
| "waits (ev # evs) = waits evs"

text \<open>
  A request gets no reply: it cannot be started (no connection, or \<^verbatim>\<open>send\<close>
  fails), or the wait ends without the connection being readable, or the first read
  delivers no byte.
\<close>

definition start_fails :: "req_env \<Rightarrow> bool" where
  "start_fails e \<longleftrightarrow> fst (get_socket (create_os e) (pool_queue e)) < 0 \<or> send_res e < 0"

definition no_reply :: "'r platform \<Rightarrow> req_env \<Rightarrow> bool" where
  "no_reply p e \<longleftrightarrow>
     start_fails e \<or> select_res e \<le> 0 \<or>
     recv_data (reply_buffer_size p - 1) (incoming e) = []"


text \<open>
  One request and the wait for its reply, as \<^verbatim>\<open>update\<close> and
  \<^verbatim>\<open>exchange_data\<close> both make it: \<^verbatim>\<open>soap_request_start\<close>, then
  \<^verbatim>\<open>soap_request_end(1000)\<close>. Where the start fails, \<^verbatim>\<open>sock_fd\<close> is negative
  and \<^verbatim>\<open>soap_request_end\<close> would return \<^verbatim>\<open>nullptr\<close> at once, so the result
  is that of the code, which does not call it.
\<close>

definition soap_request ::
  "'r platform \<Rightarrow> req_env \<Rightarrow> string \<Rightarrow> string \<Rightarrow> 'r rf_state \<Rightarrow> string option \<times> 'r rf_state" where
  "soap_request p e action fmt s =
     soap_request_end p e 1000 (snd (soap_request_start e action fmt s))"

text \<open>A sequence of calls of \<^verbatim>\<open>update\<close>, and the same sequence of data exchanges.\<close>

fun updates ::
  "'r platform \<Rightarrow> (update_env \<times> control_input) list \<Rightarrow> 'r rf_state \<Rightarrow> 'r rf_state" where
  "updates p [] s = s"
| "updates p ((ue, input) # calls) s = updates p calls (update p ue input s)"

fun exchanges ::
  "'r platform \<Rightarrow> (update_env \<times> control_input) list \<Rightarrow> 'r rf_state \<Rightarrow> 'r rf_state" where
  "exchanges p [] s = s"
| "exchanges p ((ue, input) # calls) s =
     exchanges p calls (exchange_data p (exchange_env ue) input s)"

text \<open>The two requests of the protocol.\<close>

definition handshake_request :: string where
  "handshake_request = http_request ''InjectUAVControllerInterface'' inject_body"

definition exchange_request :: "'r platform \<Rightarrow> control_input \<Rightarrow> string" where
  "exchange_request p input =
     http_request ''ExchangeData'' (take 1023 (exchange_body (print_double p) input))"


text \<open>
  The value of \<^verbatim>\<open>total_received\<close> when the loop of \<^verbatim>\<open>soap_request_end\<close>
  ends, on the buffer that \<^verbatim>\<open>memset\<close> has cleared.
\<close>

definition loop_total :: "nat \<Rightarrow> int \<Rightarrow> string list \<Rightarrow> nat" where
  "loop_total cap fd inc = fst (recv_loop cap fd 0 (replicate cap NUL) inc [])"


text \<open>
  A platform for concrete runs: a buffer of 64 bytes, a table of two keys, and the
  conversions fixed on the few texts the runs use.
\<close>

definition example_platform :: "nat platform" where
  "example_platform =
     \<lparr>reply_buffer_size = 64,
      keytable = [(''m-airspeed-MPS'', 0), (''m-isTouchingGround'', 1)],
      print_double = (\<lambda>x. if x = 0 then ''0'' else if x = 0.5 then ''0.5'' else ''1''),
      stod = (\<lambda>s. if s = ''-3.5'' then Some (- 3.5) else if s = ''12.3'' then Some 12.3
                   else None)\<rparr>"

text \<open>
  Worlds for concrete runs: a peer that answers with one telemetry field in two
  segments, a server that refuses the connection while the pool is empty, a peer that
  stays silent until the wait ends, and a peer that sends a NUL byte before the
  closing tag.
\<close>

definition env_reply :: req_env where
  "env_reply =
     \<lparr>pool_queue = [4],
      create_os = \<lparr>socket_res = 7, pton_res = 1, connect_res = 0\<rparr>,
      send_res = 10, select_res = 1,
      incoming = [''<m-airspeed-MPS>12.3</m-airsp'', ''eed-MPS></SOAP-ENV:Envelope>'']\<rparr>"

definition env_refused :: req_env where
  "env_refused =
     \<lparr>pool_queue = [],
      create_os = \<lparr>socket_res = 7, pton_res = 1, connect_res = - 1\<rparr>,
      send_res = 10, select_res = 1, incoming = []\<rparr>"

definition env_silent :: req_env where
  "env_silent =
     \<lparr>pool_queue = [5],
      create_os = \<lparr>socket_res = 7, pton_res = 1, connect_res = 0\<rparr>,
      send_res = 10, select_res = 0, incoming = []\<rparr>"

definition env_unmarked :: req_env where
  "env_unmarked =
     \<lparr>pool_queue = [6],
      create_os = \<lparr>socket_res = 7, pton_res = 1, connect_res = 0\<rparr>,
      send_res = 10, select_res = 1, incoming = [''<a>1</a>'', ''<b>2</b>'']\<rparr>"



definition example_input :: control_input where
  "example_input =
     \<lparr>aileron = 0.5, elevator = 0.5, throttle = 0, rudder = 0.5, flaps = 0, gear = 0\<rparr>"

definition calls_refused :: update_env where
  "calls_refused = \<lparr>inject_env = env_refused, exchange_env = env_reply\<rparr>"

definition calls_reply :: update_env where
  "calls_reply = \<lparr>inject_env = env_reply, exchange_env = env_reply\<rparr>"


section \<open>Properties\<close>

lemma channels_eq:
  "channels input =
     [aileron input, elevator input, throttle input, rudder input, flaps input, gear input,
      0.5, 0.5, 0.5, 0.5, 0.5, 0.5]"
  by (simp add: channels_def channels_init_def)

lemma items_12:
  "items pr [a0, a1, a2, a3, a4, a5, a6, a7, a8, a9, a10, a11] 0 12 =
     concat (map (\<lambda>c. ''<item>'' @ pr c @ ''</item>'')
       [a0, a1, a2, a3, a4, a5, a6, a7, a8, a9, a10, a11])"
proof -
  have n: "(12::nat) = Suc (Suc (Suc (Suc (Suc (Suc (Suc (Suc (Suc (Suc (Suc (Suc 0)))))))))))"
    by simp
  show ?thesis unfolding n by simp
qed

text \<open>
  Claim C1. For every control input the channel vector written into the body of the
  data-exchange request has exactly 12 elements; the elements at indices 0 to 5 are
  the aileron, elevator, throttle, rudder, flaps and gear fields of the input, those
  at indices 6 to 11 are 0.5, and the body holds one item per element, in this order.
\<close>

theorem channels_encoded:
  "length (channels input) = 12 \<and>
   channels input ! 0 = aileron input \<and>
   channels input ! 1 = elevator input \<and>
   channels input ! 2 = throttle input \<and>
   channels input ! 3 = rudder input \<and>
   channels input ! 4 = flaps input \<and>
   channels input ! 5 = gear input \<and>
   channels input ! 6 = 0.5 \<and> channels input ! 7 = 0.5 \<and> channels input ! 8 = 0.5 \<and>
   channels input ! 9 = 0.5 \<and> channels input ! 10 = 0.5 \<and> channels input ! 11 = 0.5 \<and>
   exchange_body pr input =
     ''<pControlInputs><m-selectedChannels>4095</m-selectedChannels><m-channelValues-0to1>'' @
     concat (map (\<lambda>c. ''<item>'' @ pr c @ ''</item>'')
       [aileron input, elevator input, throttle input, rudder input, flaps input, gear input,
        0.5, 0.5, 0.5, 0.5, 0.5, 0.5]) @
     ''</m-channelValues-0to1></pControlInputs>''"
  by (simp add: channels_eq exchange_body_def items_12 del: concat.simps map_append list.map)

subsection \<open>The search and the decoder\<close>



lemma strstr_None_iff: "strstr s n = None \<longleftrightarrow> \<not> sublist n s"
proof (induction s)
  case Nil
  then show ?case by auto
next
  case (Cons c cs)
  then show ?case by (auto simp: sublist_Cons_right)
qed


lemma parse_keys_other: "r \<notin> snd ` set kt \<Longrightarrow> parse_keys sd reply kt st r = st r"
  by (induction kt arbitrary: st) auto

lemma parse_keys_entry:
  "distinct (map snd kt) \<Longrightarrow> (tag, r) \<in> set kt \<Longrightarrow>
   parse_keys sd reply kt st r = extract_value sd reply tag"
proof (induction kt arbitrary: st)
  case Nil
  then show ?case by simp
next
  case (Cons e kt)
  obtain key ref where e: "e = (key, ref)" by (cases e)
  show ?case
  proof (cases "(tag, r) \<in> set kt")
    case True
    with Cons e show ?thesis by simp
  next
    case False
    with Cons.prems e have "key = tag" "ref = r" by auto
    moreover from Cons.prems e have "ref \<notin> snd ` set kt" by simp
    ultimately show ?thesis using e by (simp add: parse_keys_other)
  qed
qed



subsection \<open>The socket pool\<close>

lemma get_socket_queue_length:
  "length (fst (snd (get_socket os q))) \<le> length q"
  by (simp add: get_socket_def)

lemma pool_step_max [simp]: "max_pool_size (pool_step a s) = max_pool_size s"
  by (cases a) (auto simp: Let_def split: refill_pc.splits)

lemma pool_run_max [simp]: "max_pool_size (pool_run as s) = max_pool_size s"
  by (induction as arbitrary: s) simp_all

lemma pool_inv_init: "pool_inv (pool_init n)"
  by (simp add: pool_inv_def pool_init_def)

lemma pool_inv_acquire: "pool_inv s \<Longrightarrow> pool_inv (pool_step (Acquire os) s)"
proof -
  assume i: "pool_inv s"
  let ?q = "fst (snd (get_socket os (available_sockets s)))"
  have le: "length ?q \<le> length (available_sockets s)"
    by (rule get_socket_queue_length)
  show ?thesis
  proof (cases "pc s")
    case LoopHead
    with i le show ?thesis by (simp add: pool_inv_def)
  next
    case (Checked n)
    with i le show ?thesis by (simp add: pool_inv_def)
  next
    case (Created k)
    with i le show ?thesis by (simp add: pool_inv_def)
  qed
qed

lemma pool_inv_refill: "pool_inv s \<Longrightarrow> pool_inv (pool_step (Refill os) s)"
proof -
  assume i: "pool_inv s"
  show ?thesis
  proof (cases "pc s")
    case LoopHead
    with i show ?thesis by (simp add: pool_inv_def)
  next
    case (Checked n)
    with i show ?thesis by (simp add: pool_inv_def Let_def)
  next
    case (Created k)
    with i show ?thesis by (simp add: pool_inv_def)
  qed
qed

lemma pool_inv_step: "pool_inv s \<Longrightarrow> pool_inv (pool_step a s)"
proof (cases a)
  case (Acquire os)
  assume "pool_inv s"
  with Acquire show ?thesis by (simp only: pool_inv_acquire)
next
  case (Refill os)
  assume "pool_inv s"
  with Refill show ?thesis by (simp only: pool_inv_refill)
next
  case Shutdown
  assume "pool_inv s"
  with Shutdown show ?thesis by (simp add: pool_inv_def split: refill_pc.splits)
qed

lemma pool_inv_run: "pool_inv s \<Longrightarrow> pool_inv (pool_run as s)"
  by (induction as arbitrary: s) (simp_all add: pool_inv_step)

text \<open>
  Claim C6. Whatever the scheduler does, that is, after every sequence of atomic steps
  of callers of \<^verbatim>\<open>get_socket\<close> and of the refill thread, started from the empty
  pool of the constructor, the queue of idle connections is no longer than the
  configured maximum.
\<close>

theorem pool_never_exceeds_max:
  "length (available_sockets (pool_run as (pool_init n))) \<le> n \<and>
   max_pool_size (pool_run as (pool_init n)) = n"
proof -
  have "pool_inv (pool_run as (pool_init n))"
    by (rule pool_inv_run [OF pool_inv_init])
  then have "length (available_sockets (pool_run as (pool_init n)))
      \<le> max_pool_size (pool_run as (pool_init n))"
    by (simp add: pool_inv_def)
  then show ?thesis by (simp add: pool_init_def)
qed

text \<open>
  Claim C7. With a connection in the queue, \<^verbatim>\<open>get_socket\<close> returns the one at the
  front, removes it and makes no system call. With the queue empty it leaves the queue
  empty and creates a connection itself, once (one call of \<^verbatim>\<open>socket\<close>, at most one
  of \<^verbatim>\<open>connect\<close>): where \<^verbatim>\<open>socket\<close>, \<^verbatim>\<open>inet_pton\<close> or \<^verbatim>\<open>connect\<close> fails it
  returns -1, and otherwise the new descriptor.
\<close>

theorem get_socket_acquire:
  "(q \<noteq> [] \<longrightarrow> get_socket os q = (hd q, tl q, [])) \<and>
   (q = [] \<longrightarrow>
      fst (snd (get_socket os q)) = [] \<and>
      length (filter (\<lambda>e. e = SocketCall) (snd (snd (get_socket os q)))) = 1 \<and>
      length (filter (\<lambda>e. \<exists>fd. e = ConnectCall fd) (snd (snd (get_socket os q)))) \<le> 1 \<and>
      (socket_res os < 0 \<or> pton_res os \<le> 0 \<or> connect_res os < 0 \<longrightarrow>
         fst (get_socket os q) = - 1) \<and>
      (\<not> (socket_res os < 0 \<or> pton_res os \<le> 0 \<or> connect_res os < 0) \<longrightarrow>
         fst (get_socket os q) = socket_res os \<and>
         snd (snd (get_socket os q)) = [SocketCall, ConnectCall (socket_res os)]))"
  by (auto simp: get_socket_def create_connection_def Let_def)

theorem get_socket_acquire_witness:
  "get_socket \<lparr>socket_res = 7, pton_res = 1, connect_res = 0\<rparr> [5, 6] = (5, [6], []) \<and>
   fst (get_socket \<lparr>socket_res = 7, pton_res = 1, connect_res = - 1\<rparr> []) = - 1 \<and>
   fst (get_socket \<lparr>socket_res = 7, pton_res = 1, connect_res = 0\<rparr> []) = 7"
  using get_socket_acquire [of "[5, 6]" "\<lparr>socket_res = 7, pton_res = 1, connect_res = 0\<rparr>"]
    get_socket_acquire [of "[]" "\<lparr>socket_res = 7, pton_res = 1, connect_res = - 1\<rparr>"]
    get_socket_acquire [of "[]" "\<lparr>socket_res = 7, pton_res = 1, connect_res = 0\<rparr>"]
  by simp


subsection \<open>The receive loop\<close>

lemma recv_loop_full:
  "\<not> tot < cap - 1 \<Longrightarrow> recv_loop cap fd tot buf inc ev = (tot, buf, ev)"
  by (simp add: recv_loop.simps)

lemma recv_loop_closed:
  "tot < cap - 1 \<Longrightarrow> recv_data (cap - tot - 1) inc = [] \<Longrightarrow>
   recv_loop cap fd tot buf inc ev = (tot, buf, ev @ [RecvCall fd tot (cap - tot - 1)])"
  by (simp add: recv_loop.simps [of cap fd tot])

lemma recv_loop_marker:
  "tot < cap - 1 \<Longrightarrow> data = recv_data (cap - tot - 1) inc \<Longrightarrow> data \<noteq> [] \<Longrightarrow>
   strstr (c_str (write_bytes tot data buf)) envelope_end \<noteq> None \<Longrightarrow>
   recv_loop cap fd tot buf inc ev =
     (tot + length data, write_bytes tot data buf,
      ev @ [RecvCall fd tot (cap - tot - 1)])"
  by (simp add: recv_loop.simps [of cap fd tot] Let_def)

lemma recv_loop_more:
  "tot < cap - 1 \<Longrightarrow> data = recv_data (cap - tot - 1) inc \<Longrightarrow> data \<noteq> [] \<Longrightarrow>
   strstr (c_str (write_bytes tot data buf)) envelope_end = None \<Longrightarrow>
   recv_loop cap fd tot buf inc ev =
     recv_loop cap fd (tot + length data) (write_bytes tot data buf)
       (recv_rest (cap - tot - 1) inc) (ev @ [RecvCall fd tot (cap - tot - 1)])"
  by (simp add: recv_loop.simps [of cap fd tot] Let_def)

lemma recv_loop_cases_induct [case_names full closed marker more]:
  assumes "\<And>cap fd tot buf inc ev. \<not> tot < cap - 1 \<Longrightarrow> P cap fd tot buf inc ev"
    and "\<And>cap fd tot buf inc ev.
      tot < cap - 1 \<Longrightarrow> recv_data (cap - tot - 1) inc = [] \<Longrightarrow> P cap fd tot buf inc ev"
    and "\<And>cap fd tot buf inc ev data.
      tot < cap - 1 \<Longrightarrow> data = recv_data (cap - tot - 1) inc \<Longrightarrow> data \<noteq> [] \<Longrightarrow>
      strstr (c_str (write_bytes tot data buf)) envelope_end \<noteq> None \<Longrightarrow>
      P cap fd tot buf inc ev"
    and "\<And>cap fd tot buf inc ev data.
      tot < cap - 1 \<Longrightarrow> data = recv_data (cap - tot - 1) inc \<Longrightarrow> data \<noteq> [] \<Longrightarrow>
      strstr (c_str (write_bytes tot data buf)) envelope_end = None \<Longrightarrow>
      P cap fd (tot + length data) (write_bytes tot data buf)
        (recv_rest (cap - tot - 1) inc) (ev @ [RecvCall fd tot (cap - tot - 1)]) \<Longrightarrow>
      P cap fd tot buf inc ev"
  shows "P cap fd tot buf inc ev"
proof (induction cap fd tot buf inc ev rule: recv_loop.induct)
  case (1 cap fd tot buf inc ev)
  show ?case
  proof (cases "tot < cap - 1")
    case False
    then show ?thesis by (rule assms(1))
  next
    case lt: True
    show ?thesis
    proof (cases "recv_data (cap - tot - 1) inc = []")
      case True
      with lt show ?thesis by (rule assms(2))
    next
      case ne: False
      show ?thesis
      proof (cases "strstr (c_str (write_bytes tot (recv_data (cap - tot - 1) inc) buf))
          envelope_end = None")
        case False
        show ?thesis by (rule assms(3) [OF lt refl ne False])
      next
        case mk: True
        have "P cap fd (tot + length (recv_data (cap - tot - 1) inc))
            (write_bytes tot (recv_data (cap - tot - 1) inc) buf)
            (recv_rest (cap - tot - 1) inc) (ev @ [RecvCall fd tot (cap - tot - 1)])"
          using "1.IH" lt ne mk by simp
        then show ?thesis by (rule assms(4) [OF lt refl ne mk])
      qed
    qed
  qed
qed

lemma recv_data_length: "length (recv_data len inc) \<le> len"
  by (simp add: recv_data_def split: list.splits)

lemma takeWhile_replicate_NUL: "takeWhile (\<lambda>c. c \<noteq> NUL) (replicate k NUL) = []"
  by (cases k) simp_all

lemma c_str_padded: "c_str (acc @ replicate k NUL) = c_str acc"
  unfolding c_str_def by (induction acc) (simp_all add: takeWhile_replicate_NUL)

lemma write_bytes_padded:
  "length acc + length data \<le> cap \<Longrightarrow>
   write_bytes (length acc) data (acc @ replicate (cap - length acc) NUL) =
     (acc @ data) @ replicate (cap - length (acc @ data)) NUL"
  by (simp add: write_bytes_def)

lemma strstr_found_iff: "strstr s n \<noteq> None \<longleftrightarrow> sublist n s"
  using strstr_None_iff [of s n] by simp

lemma stream_bytes_step:
  "recv_data len inc \<noteq> [] \<Longrightarrow>
   stream_bytes inc = recv_data len inc @ stream_bytes (recv_rest len inc)"
proof (cases inc)
  case Nil
  assume "recv_data len inc \<noteq> []"
  with Nil show ?thesis by (simp add: recv_data_def)
next
  case (Cons seg segs)
  assume ne: "recv_data len inc \<noteq> []"
  with Cons have seg: "seg \<noteq> []" and len: "0 < len" by (auto simp: recv_data_def)
  show ?thesis
  proof (cases "length seg \<le> len")
    case True
    with Cons seg show ?thesis by (simp add: stream_bytes_def recv_data_def recv_rest_def)
  next
    case False
    then have "drop len seg \<noteq> []" by simp
    with Cons seg False show ?thesis
      by (simp add: stream_bytes_def recv_data_def recv_rest_def)
  qed
qed

lemma stream_bytes_closed:
  "0 < len \<Longrightarrow> recv_data len inc = [] \<Longrightarrow> stream_bytes inc = []"
  by (cases inc) (auto simp: stream_bytes_def recv_data_def)

lemma receive_until_full:
  "\<not> length acc < room \<Longrightarrow> receive_until d room acc inc = acc"
  by (simp add: receive_until.simps)

lemma receive_until_closed:
  "length acc < room \<Longrightarrow> recv_data (room - length acc) inc = [] \<Longrightarrow>
   receive_until d room acc inc = acc"
  by (simp add: receive_until.simps [of d room acc])

lemma receive_until_done:
  "length acc < room \<Longrightarrow> data = recv_data (room - length acc) inc \<Longrightarrow> data \<noteq> [] \<Longrightarrow>
   d (acc @ data) \<Longrightarrow> receive_until d room acc inc = acc @ data"
  by (simp add: receive_until.simps [of d room acc] Let_def)

lemma receive_until_more:
  "length acc < room \<Longrightarrow> data = recv_data (room - length acc) inc \<Longrightarrow> data \<noteq> [] \<Longrightarrow>
   \<not> d (acc @ data) \<Longrightarrow>
   receive_until d room acc inc =
     receive_until d room (acc @ data) (recv_rest (room - length acc) inc)"
  by (simp add: receive_until.simps [of d room acc] Let_def)

lemma receive_until_cases_induct [case_names full closed complete more]:
  assumes "\<And>d room acc inc. \<not> length acc < room \<Longrightarrow> P d room acc inc"
    and "\<And>d room acc inc.
      length acc < room \<Longrightarrow> recv_data (room - length acc) inc = [] \<Longrightarrow> P d room acc inc"
    and "\<And>d room acc inc data.
      length acc < room \<Longrightarrow> data = recv_data (room - length acc) inc \<Longrightarrow> data \<noteq> [] \<Longrightarrow>
      d (acc @ data) \<Longrightarrow> P d room acc inc"
    and "\<And>d room acc inc data.
      length acc < room \<Longrightarrow> data = recv_data (room - length acc) inc \<Longrightarrow> data \<noteq> [] \<Longrightarrow>
      \<not> d (acc @ data) \<Longrightarrow>
      P d room (acc @ data) (recv_rest (room - length acc) inc) \<Longrightarrow>
      P d room acc inc"
  shows "P d room acc inc"
proof (induction d room acc inc rule: receive_until.induct)
  case (1 d room acc inc)
  show ?case
  proof (cases "length acc < room")
    case False
    then show ?thesis by (rule assms(1))
  next
    case lt: True
    show ?thesis
    proof (cases "recv_data (room - length acc) inc = []")
      case True
      with lt show ?thesis by (rule assms(2))
    next
      case ne: False
      show ?thesis
      proof (cases "d (acc @ recv_data (room - length acc) inc)")
        case True
        show ?thesis by (rule assms(3) [where d = d, OF lt refl ne True])
      next
        case nd: False
        have "P d room (acc @ recv_data (room - length acc) inc)
            (recv_rest (room - length acc) inc)"
          using "1.IH" lt ne nd by simp
        then show ?thesis by (rule assms(4) [where d = d, OF lt refl ne nd])
      qed
    qed
  qed
qed

lemma receive_until_length:
  "length acc \<le> room \<Longrightarrow> length (receive_until d room acc inc) \<le> room"
proof (induction d room acc inc rule: receive_until_cases_induct)
  case (full d room acc inc)
  then show ?case by (simp add: receive_until_full)
next
  case (closed d room acc inc)
  then show ?case by (simp add: receive_until_closed)
next
  case (complete d room acc inc data)
  have "length data \<le> room - length acc"
    unfolding complete(2) by (rule recv_data_length)
  with complete show ?case by (simp add: receive_until_done)
next
  case (more d room acc inc data)
  have "length data \<le> room - length acc"
    unfolding more(2) by (rule recv_data_length)
  with more(1) have "length (acc @ data) \<le> room" by simp
  then have "length (receive_until d room (acc @ data) (recv_rest (room - length acc) inc))
      \<le> room"
    by (rule more.IH)
  then show ?case by (simp only: receive_until_more [where d = d, OF more(1-4)])
qed

lemma receive_until_stream:
  "\<exists>k. receive_until d room acc inc = acc @ take k (stream_bytes inc)"
proof (induction d room acc inc rule: receive_until_cases_induct)
  case (full d room acc inc)
  then have "receive_until d room acc inc = acc @ take 0 (stream_bytes inc)"
    by (simp add: receive_until_full)
  then show ?case by blast
next
  case (closed d room acc inc)
  then have "receive_until d room acc inc = acc @ take 0 (stream_bytes inc)"
    by (simp add: receive_until_closed)
  then show ?case by blast
next
  case (complete d room acc inc data)
  from complete(2,3) have s: "stream_bytes inc = data @ stream_bytes (recv_rest (room - length acc) inc)"
    by (simp add: stream_bytes_step)
  have "receive_until d room acc inc = acc @ take (length data) (stream_bytes inc)"
    by (simp add: receive_until_done [where d = d, OF complete(1-4)] s)
  then show ?case by blast
next
  case (more d room acc inc data)
  from more(2,3) have s: "stream_bytes inc = data @ stream_bytes (recv_rest (room - length acc) inc)"
    by (simp add: stream_bytes_step)
  from more.IH obtain k where
    "receive_until d room (acc @ data) (recv_rest (room - length acc) inc) =
       (acc @ data) @ take k (stream_bytes (recv_rest (room - length acc) inc))"
    by blast
  then have "receive_until d room acc inc = acc @ take (length data + k) (stream_bytes inc)"
    by (simp add: receive_until_more [where d = d, OF more(1-4)] s)
  then show ?case by blast
qed

lemma receive_until_never_done:
  "length acc \<le> room \<Longrightarrow> (\<And>k. \<not> d (acc @ take k (stream_bytes inc))) \<Longrightarrow>
   receive_until d room acc inc = acc @ take (room - length acc) (stream_bytes inc)"
proof (induction d room acc inc rule: receive_until_cases_induct)
  case (full d room acc inc)
  then show ?case by (simp add: receive_until_full)
next
  case (closed d room acc inc)
  from closed(1) have "0 < room - length acc" by simp
  then have "stream_bytes inc = []" using closed(2) by (rule stream_bytes_closed)
  with closed show ?case by (simp add: receive_until_closed)
next
  case (complete d room acc inc data)
  from complete(2,3) have s: "stream_bytes inc = data @ stream_bytes (recv_rest (room - length acc) inc)"
    by (simp add: stream_bytes_step)
  from complete.prems(2) [of "length data"] s have "\<not> d (acc @ data)" by simp
  with complete(4) show ?case by simp
next
  case (more d room acc inc data)
  let ?rest = "recv_rest (room - length acc) inc"
  from more(2,3) have s: "stream_bytes inc = data @ stream_bytes ?rest"
    by (simp add: stream_bytes_step)
  have len: "length data \<le> room - length acc"
    unfolding more(2) by (rule recv_data_length)
  with more(1) have le: "length (acc @ data) \<le> room" by simp
  have nd: "\<not> d ((acc @ data) @ take k (stream_bytes ?rest))" for k
    using more.prems(2) [of "length data + k"] s by simp
  have "receive_until d room (acc @ data) ?rest =
      (acc @ data) @ take (room - length (acc @ data)) (stream_bytes ?rest)"
    by (rule more.IH [OF le nd])
  with len show ?case
    by (simp add: receive_until_more [where d = d, OF more(1-4)] s)
qed

lemma receive_until_grows: "length acc \<le> length (receive_until d room acc inc)"
proof (induction d room acc inc rule: receive_until_cases_induct)
  case (full d room acc inc)
  then show ?case by (simp add: receive_until_full)
next
  case (closed d room acc inc)
  then show ?case by (simp add: receive_until_closed)
next
  case (complete d room acc inc data)
  then show ?case by (simp add: receive_until_done)
next
  case (more d room acc inc data)
  then show ?case by (simp add: receive_until_more [where d = d, OF more(1-4)])
qed

lemma receive_until_empty_iff:
  "receive_until d room [] inc = [] \<longleftrightarrow> recv_data room inc = []"
proof (cases "recv_data room inc = []")
  case True
  then show ?thesis
    by (cases "0 < room") (simp_all add: receive_until_closed receive_until_full)
next
  case False
  then have lt: "length ([]::string) < room"
    by (cases room) (simp_all add: recv_data_def split: list.splits)
  from False have ne: "recv_data (room - length ([]::string)) inc \<noteq> []" by simp
  show ?thesis
  proof (cases "d ([] @ recv_data (room - length ([]::string)) inc)")
    case True
    from receive_until_done [where d = d, OF lt refl ne True] False show ?thesis by simp
  next
    case nd: False
    have "length ([] @ recv_data (room - length ([]::string)) inc)
        \<le> length (receive_until d room [] inc)"
      unfolding receive_until_more [where d = d, OF lt refl ne nd] by (rule receive_until_grows)
    with False show ?thesis by auto
  qed
qed


lemma recv_loop_refines:
  "room = cap - 1 \<Longrightarrow> length acc \<le> room \<Longrightarrow>
   (\<And>a. d a \<longleftrightarrow> strstr (c_str a) envelope_end \<noteq> None) \<Longrightarrow>
   fst (recv_loop cap fd (length acc) (acc @ replicate (cap - length acc) NUL) inc ev) =
     length (receive_until d room acc inc) \<and>
   fst (snd (recv_loop cap fd (length acc) (acc @ replicate (cap - length acc) NUL) inc ev)) =
     receive_until d room acc inc @
       replicate (cap - length (receive_until d room acc inc)) NUL"
proof (induction d room acc inc arbitrary: ev rule: receive_until_cases_induct)
  case (full d room acc inc)
  then show ?case by (simp add: receive_until_full recv_loop_full)
next
  case (closed d room acc inc)
  then show ?case by (simp add: receive_until_closed recv_loop_closed)
next
  case (complete d room acc inc data)
  have len: "length data \<le> room - length acc"
    unfolding complete(2) by (rule recv_data_length)
  with complete(1) complete.prems(1) have le: "length acc + length data \<le> cap" by simp
  note w = write_bytes_padded [OF le]
  from complete(1) complete.prems(1) have lt: "length acc < cap - 1" by simp
  from complete(2) complete.prems(1) have dt: "data = recv_data (cap - length acc - 1) inc"
    by simp
  have mk: "strstr (c_str (write_bytes (length acc) data
      (acc @ replicate (cap - length acc) NUL))) envelope_end \<noteq> None"
  proof -
    have "strstr (c_str (acc @ data)) envelope_end \<noteq> None"
      using complete(4) complete.prems(3) [of "acc @ data"] by simp
    then show ?thesis unfolding w c_str_padded .
  qed
  show ?case
    unfolding recv_loop_marker [OF lt dt complete(3) mk]
      receive_until_done [where d = d, OF complete(1-4)]
    by (simp add: w)
next
  case (more d room acc inc data)
  have len: "length data \<le> room - length acc"
    unfolding more(2) by (rule recv_data_length)
  with more(1) more.prems(1) have le: "length acc + length data \<le> cap" by simp
  note w = write_bytes_padded [OF le]
  from more(1) more.prems(1) have lt: "length acc < cap - 1" by simp
  from more(2) more.prems(1) have dt: "data = recv_data (cap - length acc - 1) inc"
    by simp
  have mk: "strstr (c_str (write_bytes (length acc) data
      (acc @ replicate (cap - length acc) NUL))) envelope_end = None"
  proof -
    have "strstr (c_str (acc @ data)) envelope_end = None"
      using more(4) more.prems(3) [of "acc @ data"] by simp
    then show ?thesis unfolding w c_str_padded .
  qed
  from len more(1) have le': "length (acc @ data) \<le> room" by simp
  have rest: "recv_rest (cap - length acc - 1) inc = recv_rest (room - length acc) inc"
    using more.prems(1) by simp
  have ih: "fst (recv_loop cap fd (length (acc @ data))
        ((acc @ data) @ replicate (cap - length (acc @ data)) NUL)
        (recv_rest (room - length acc) inc) ev') =
      length (receive_until d room (acc @ data) (recv_rest (room - length acc) inc)) \<and>
    fst (snd (recv_loop cap fd (length (acc @ data))
        ((acc @ data) @ replicate (cap - length (acc @ data)) NUL)
        (recv_rest (room - length acc) inc) ev')) =
      receive_until d room (acc @ data) (recv_rest (room - length acc) inc) @
        replicate (cap - length (receive_until d room (acc @ data)
          (recv_rest (room - length acc) inc))) NUL" for ev'
    by (rule more.IH [OF more.prems(1) le' more.prems(3)])
  show ?case
    unfolding recv_loop_more [OF lt dt more(3) mk]
      receive_until_more [where d = d, OF more(1-4)] w rest
    using ih by simp
qed

lemma recv_loop_events:
  "\<exists>rs. snd (snd (recv_loop cap fd tot buf inc ev)) = ev @ rs \<and>
        (\<forall>x \<in> set rs. \<exists>off len. x = RecvCall fd off len \<and> off + len < cap)"
proof (induction cap fd tot buf inc ev rule: recv_loop_cases_induct)
  case (full cap fd tot buf inc ev)
  then have "snd (snd (recv_loop cap fd tot buf inc ev)) = ev @ []"
    by (simp add: recv_loop_full)
  then show ?case by fastforce
next
  case (closed cap fd tot buf inc ev)
  then have "snd (snd (recv_loop cap fd tot buf inc ev)) =
      ev @ [RecvCall fd tot (cap - tot - 1)]"
    by (simp add: recv_loop_closed)
  moreover from closed(1) have "tot + (cap - tot - 1) < cap" by simp
  ultimately show ?case by fastforce
next
  case (marker cap fd tot buf inc ev data)
  then have "snd (snd (recv_loop cap fd tot buf inc ev)) =
      ev @ [RecvCall fd tot (cap - tot - 1)]"
    by (simp add: recv_loop_marker)
  moreover from marker(1) have "tot + (cap - tot - 1) < cap" by simp
  ultimately show ?case by fastforce
next
  case (more cap fd tot buf inc ev data)
  from more.IH obtain rs where
    rs: "snd (snd (recv_loop cap fd (tot + length data) (write_bytes tot data buf)
        (recv_rest (cap - tot - 1) inc) (ev @ [RecvCall fd tot (cap - tot - 1)]))) =
      (ev @ [RecvCall fd tot (cap - tot - 1)]) @ rs"
    and b: "\<forall>x \<in> set rs. \<exists>off len. x = RecvCall fd off len \<and> off + len < cap"
    by blast
  from more(1) have t: "tot + (cap - tot - 1) < cap" by simp
  have "snd (snd (recv_loop cap fd tot buf inc ev)) =
      ev @ (RecvCall fd tot (cap - tot - 1) # rs)"
    unfolding recv_loop_more [OF more(1-4)] rs by simp
  moreover have "\<forall>x \<in> set (RecvCall fd tot (cap - tot - 1) # rs).
      \<exists>off len. x = RecvCall fd off len \<and> off + len < cap"
    using b t by simp
  ultimately show ?case by blast
qed

lemma recv_loop_zeroed:
  "fst (recv_loop cap fd 0 (replicate cap NUL) inc ev) =
     length (receive_until marker_in_c_str (cap - 1) [] inc) \<and>
   fst (snd (recv_loop cap fd 0 (replicate cap NUL) inc ev)) =
     receive_until marker_in_c_str (cap - 1) [] inc @
       replicate (cap - length (receive_until marker_in_c_str (cap - 1) [] inc)) NUL"
proof -
  have d: "marker_in_c_str a \<longleftrightarrow> strstr (c_str a) envelope_end \<noteq> None" for a
    unfolding marker_in_c_str_def by (rule strstr_found_iff [symmetric])
  have "length ([]::string) \<le> cap - 1" by simp
  from recv_loop_refines [where d = marker_in_c_str, OF refl this d, of fd inc ev]
  show ?thesis by simp
qed

subsection \<open>The framer\<close>

lemma sends_append: "sends (xs @ ys) = sends xs @ sends ys"
  by (induction xs rule: sends.induct) simp_all

lemma closes_append: "closes (xs @ ys) = closes xs @ closes ys"
  by (induction xs rule: closes.induct) simp_all

lemma waits_append: "waits (xs @ ys) = waits xs @ waits ys"
  by (induction xs rule: waits.induct) simp_all

lemma recv_events_silent:
  "\<forall>x \<in> set rs. \<exists>off len. x = RecvCall fd off len \<and> off + len < cap \<Longrightarrow>
   sends rs = [] \<and> closes rs = [] \<and> waits rs = [] \<and> list_all (in_bounds cap) rs"
  by (induction rs) auto

lemma get_socket_events_silent:
  "sends (snd (snd (get_socket os q))) = [] \<and> waits (snd (snd (get_socket os q))) = []"
  by (simp add: get_socket_def create_connection_def Let_def)

lemma recv_loop_trace:
  "sends (snd (snd (recv_loop cap fd 0 buf inc []))) = [] \<and>
   closes (snd (snd (recv_loop cap fd 0 buf inc []))) = [] \<and>
   waits (snd (snd (recv_loop cap fd 0 buf inc []))) = [] \<and>
   list_all (in_bounds cap) (snd (snd (recv_loop cap fd 0 buf inc [])))"
proof -
  from recv_loop_events [of cap fd 0 buf inc "[]"] obtain rs where
    "snd (snd (recv_loop cap fd 0 buf inc [])) = rs"
    and "\<forall>x \<in> set rs. \<exists>off len. x = RecvCall fd off len \<and> off + len < cap"
    by auto
  then show ?thesis using recv_events_silent [of rs fd cap] by simp
qed

lemma soap_request_start_ok: "fst (soap_request_start e action fmt s) \<longleftrightarrow> \<not> start_fails e"
  by (simp add: soap_request_start_def start_fails_def Let_def)

lemma soap_request_start_fields:
  "state (snd (soap_request_start e action fmt s)) = state s \<and>
   controller_started (snd (soap_request_start e action fmt s)) = controller_started s \<and>
   reply_buffer (snd (soap_request_start e action fmt s)) = reply_buffer s"
  by (simp add: soap_request_start_def Let_def)

lemma soap_request_start_fd:
  "\<not> start_fails e \<Longrightarrow>
   sock_fd (snd (soap_request_start e action fmt s)) =
     fst (get_socket (create_os e) (pool_queue e)) \<and>
   0 \<le> sock_fd (snd (soap_request_start e action fmt s))"
  by (simp add: soap_request_start_def start_fails_def Let_def)

lemma soap_request_start_sends:
  "sends (trace (snd (soap_request_start e action fmt s))) =
     sends (trace s) @
       (if fst (get_socket (create_os e) (pool_queue e)) < 0 then []
        else [http_request action (if length fmt > 0 then take 1023 fmt else [])])"
  by (simp add: soap_request_start_def Let_def sends_append get_socket_events_silent)

lemma soap_request_start_waits:
  "waits (trace (snd (soap_request_start e action fmt s))) = waits (trace s)"
  by (simp add: soap_request_start_def Let_def waits_append get_socket_events_silent)

lemma soap_request_end_closed_fd:
  "sock_fd s < 0 \<Longrightarrow> soap_request_end p e t s = (None, s)"
  by (simp add: soap_request_end_def)

lemma soap_request_end_fields:
  "state (snd (soap_request_end p e t s)) = state s \<and>
   controller_started (snd (soap_request_end p e t s)) = controller_started s"
  by (simp add: soap_request_end_def Let_def)

lemma soap_request_end_fd:
  "0 \<le> sock_fd s \<Longrightarrow> sock_fd (snd (soap_request_end p e t s)) = - 1"
  by (simp add: soap_request_end_def Let_def)

lemma soap_request_end_sends:
  "sends (trace (snd (soap_request_end p e t s))) = sends (trace s)"
  by (simp add: soap_request_end_def Let_def sends_append recv_loop_trace)

lemma soap_request_end_closes:
  "0 \<le> sock_fd s \<Longrightarrow>
   closes (trace (snd (soap_request_end p e t s))) = closes (trace s) @ [sock_fd s]"
  by (simp add: soap_request_end_def Let_def closes_append recv_loop_trace)

lemma soap_request_end_waits:
  "0 \<le> sock_fd s \<Longrightarrow>
   waits (trace (snd (soap_request_end p e t s))) =
     waits (trace s) @ [(t div 1000, (t mod 1000) * 1000)]"
  by (simp add: soap_request_end_def Let_def waits_append recv_loop_trace)

lemma soap_request_end_result:
  "0 \<le> sock_fd s \<Longrightarrow>
   fst (soap_request_end p e t s) =
     (if select_res e \<le> 0 \<or>
         receive_until marker_in_c_str (reply_buffer_size p - 1) [] (incoming e) = []
      then None
      else Some (receive_until marker_in_c_str (reply_buffer_size p - 1) [] (incoming e) @
        replicate (reply_buffer_size p -
          length (receive_until marker_in_c_str (reply_buffer_size p - 1) [] (incoming e))) NUL))"
proof -
  assume fd: "0 \<le> sock_fd s"
  let ?cap = "reply_buffer_size p"
  let ?R = "receive_until marker_in_c_str (?cap - 1) [] (incoming e)"
  note z = recv_loop_zeroed [of ?cap "sock_fd s" "incoming e" "[]"]
  have le: "length ?R \<le> ?cap - 1" by (rule receive_until_length) simp
  show ?thesis
  proof (cases "select_res e \<le> 0")
    case True
    with fd show ?thesis by (simp add: soap_request_end_def Let_def)
  next
    case sel: False
    show ?thesis
    proof (cases "?R = []")
      case True
      with fd sel z show ?thesis by (simp add: soap_request_end_def Let_def)
    next
      case False
      then have pos: "0 < length ?R" by simp
      with le have "length ?R < ?cap" by linarith
      then have "(?R @ replicate (?cap - length ?R) NUL)[length ?R := NUL] =
          ?R @ replicate (?cap - length ?R) NUL"
        by (simp add: list_eq_iff_nth_eq nth_list_update nth_append)
      with fd sel z False show ?thesis by (simp add: soap_request_end_def Let_def)
    qed
  qed
qed

lemma soap_request_end_buffer:
  "0 \<le> sock_fd s \<Longrightarrow>
   reply_buffer (snd (soap_request_end p e t s)) =
     (if select_res e \<le> 0 then replicate (reply_buffer_size p) NUL
      else receive_until marker_in_c_str (reply_buffer_size p - 1) [] (incoming e) @
        replicate (reply_buffer_size p -
          length (receive_until marker_in_c_str (reply_buffer_size p - 1) [] (incoming e))) NUL)"
proof -
  assume fd: "0 \<le> sock_fd s"
  let ?cap = "reply_buffer_size p"
  let ?R = "receive_until marker_in_c_str (?cap - 1) [] (incoming e)"
  note z = recv_loop_zeroed [of ?cap "sock_fd s" "incoming e" "[]"]
  have le: "length ?R \<le> ?cap - 1" by (rule receive_until_length) simp
  show ?thesis
  proof (cases "select_res e \<le> 0")
    case True
    with fd show ?thesis by (simp add: soap_request_end_def Let_def)
  next
    case sel: False
    show ?thesis
    proof (cases "?R = []")
      case True
      with fd sel z show ?thesis by (simp add: soap_request_end_def Let_def)
    next
      case False
      then have pos: "0 < length ?R" by simp
      with le have "length ?R < ?cap" by linarith
      then have "(?R @ replicate (?cap - length ?R) NUL)[length ?R := NUL] =
          ?R @ replicate (?cap - length ?R) NUL"
        by (simp add: list_eq_iff_nth_eq nth_list_update nth_append)
      with fd sel z False show ?thesis by (simp add: soap_request_end_def Let_def)
    qed
  qed
qed

lemma soap_request_end_trace:
  "trace (snd (soap_request_end p e t s)) =
     trace s @ drop (length (trace s)) (trace (snd (soap_request_end p e t s))) \<and>
   list_all (in_bounds (reply_buffer_size p))
     (drop (length (trace s)) (trace (snd (soap_request_end p e t s))))"
proof (cases "0 \<le> sock_fd s")
  case False
  then show ?thesis by (simp add: soap_request_end_def)
next
  case fd: True
  let ?cap = "reply_buffer_size p"
  let ?R = "receive_until marker_in_c_str (?cap - 1) [] (incoming e)"
  note z = recv_loop_zeroed [of ?cap "sock_fd s" "incoming e" "[]"]
  note tr = recv_loop_trace [of ?cap "sock_fd s" "replicate ?cap NUL" "incoming e"]
  have le: "length ?R \<le> ?cap - 1" by (rule receive_until_length) simp
  show ?thesis
  proof (cases "select_res e \<le> 0")
    case True
    with fd show ?thesis by (simp add: soap_request_end_def Let_def)
  next
    case sel: False
    show ?thesis
    proof (cases "?R = []")
      case True
      with fd sel z tr show ?thesis by (simp add: soap_request_end_def Let_def)
    next
      case False
      then have pos: "0 < length ?R" by simp
      with le have "length ?R < ?cap" by linarith
      with fd sel z tr False show ?thesis by (simp add: soap_request_end_def Let_def)
    qed
  qed
qed

lemma soap_request_end_last_write:
  "0 \<le> sock_fd s \<Longrightarrow> 0 < select_res e \<Longrightarrow>
   receive_until marker_in_c_str (reply_buffer_size p - 1) [] (incoming e) \<noteq> [] \<Longrightarrow>
   last (trace (snd (soap_request_end p e t s))) =
     BufWrite (length (receive_until marker_in_c_str (reply_buffer_size p - 1) []
       (incoming e))) 1"
  using recv_loop_zeroed [of "reply_buffer_size p" "sock_fd s" "incoming e" "[]"]
  by (simp add: soap_request_end_def Let_def)

lemma receive_until_agree:
  "(\<And>k. d (acc @ take k (stream_bytes inc)) = d' (acc @ take k (stream_bytes inc))) \<Longrightarrow>
   receive_until d room acc inc = receive_until d' room acc inc"
proof (induction d room acc inc rule: receive_until_cases_induct)
  case (full d room acc inc)
  then show ?case by (simp add: receive_until_full)
next
  case (closed d room acc inc)
  then show ?case by (simp add: receive_until_closed)
next
  case (complete d room acc inc data)
  from complete(2,3) have s: "stream_bytes inc = data @ stream_bytes (recv_rest (room - length acc) inc)"
    by (simp add: stream_bytes_step)
  from complete.prems [of "length data"] s complete(4) have d': "d' (acc @ data)" by simp
  show ?case
    unfolding receive_until_done [where d = d, OF complete(1-4)]
      receive_until_done [where d = d', OF complete(1-3) d'] ..
next
  case (more d room acc inc data)
  let ?rest = "recv_rest (room - length acc) inc"
  from more(2,3) have s: "stream_bytes inc = data @ stream_bytes ?rest"
    by (simp add: stream_bytes_step)
  from more.prems [of "length data"] s more(4) have d': "\<not> d' (acc @ data)" by simp
  have ag: "d ((acc @ data) @ take k (stream_bytes ?rest)) =
      d' ((acc @ data) @ take k (stream_bytes ?rest))" for k
    using more.prems [of "length data + k"] s by simp
  show ?case
    unfolding receive_until_more [where d = d, OF more(1-4)]
      receive_until_more [where d = d', OF more(1-3) d']
    by (rule more.IH [OF ag])
qed

lemma c_str_no_NUL: "NUL \<notin> set a \<Longrightarrow> c_str a = a"
  unfolding c_str_def by (induction a) auto

lemma c_str_sublist: "sublist m (c_str (take k a)) \<Longrightarrow> sublist m a"
proof -
  assume m: "sublist m (c_str (take k a))"
  have "prefix (c_str (take k a)) (take k a)"
    unfolding c_str_def by (rule takeWhile_is_prefix)
  moreover have "prefix (take k a) a" by (rule take_is_prefix)
  ultimately have "prefix (c_str (take k a)) a" by (rule prefix_order.trans)
  then have "sublist (c_str (take k a)) a" by (rule prefix_imp_sublist)
  with m show ?thesis by (rule sublist_order.order.trans)
qed

lemma receive_until_text:
  "NUL \<notin> set (stream_bytes inc) \<Longrightarrow>
   receive_until marker_in_c_str room [] inc = receive_until marker_in_bytes room [] inc"
proof (rule receive_until_agree)
  fix k
  assume "NUL \<notin> set (stream_bytes inc)"
  then have "NUL \<notin> set (take k (stream_bytes inc))" by (auto dest: in_set_takeD)
  then show "marker_in_c_str ([] @ take k (stream_bytes inc)) =
      marker_in_bytes ([] @ take k (stream_bytes inc))"
    by (simp add: marker_in_c_str_def marker_in_bytes_def c_str_no_NUL)
qed

lemma receive_until_no_marker:
  "\<not> sublist envelope_end (stream_bytes inc) \<Longrightarrow>
   receive_until marker_in_c_str room [] inc = take room (stream_bytes inc)"
proof -
  assume n: "\<not> sublist envelope_end (stream_bytes inc)"
  have "\<not> marker_in_c_str ([] @ take k (stream_bytes inc))" for k
    using n c_str_sublist [of envelope_end k "stream_bytes inc"]
    by (auto simp: marker_in_c_str_def)
  from receive_until_never_done [where d = marker_in_c_str and acc = "[]", OF _ this, of room]
  show ?thesis by simp
qed

subsection \<open>One request\<close>

lemma soap_request_start_failed_fd:
  "start_fails e \<Longrightarrow> sock_fd (snd (soap_request_start e action fmt s)) < 0"
  by (auto simp: soap_request_start_def start_fails_def Let_def)

lemma soap_request_failed_start:
  "start_fails e \<Longrightarrow>
   soap_request p e action fmt s = (None, snd (soap_request_start e action fmt s))"
  unfolding soap_request_def
  by (rule soap_request_end_closed_fd) (rule soap_request_start_failed_fd)

lemma soap_request_result:
  "fst (soap_request p e action fmt s) =
     (if no_reply p e then None
      else Some (receive_until marker_in_c_str (reply_buffer_size p - 1) [] (incoming e) @
        replicate (reply_buffer_size p -
          length (receive_until marker_in_c_str (reply_buffer_size p - 1) [] (incoming e))) NUL))"
proof (cases "start_fails e")
  case True
  then show ?thesis by (simp add: soap_request_failed_start no_reply_def)
next
  case False
  then have "0 \<le> sock_fd (snd (soap_request_start e action fmt s))"
    by (rule soap_request_start_fd [THEN conjunct2])
  from soap_request_end_result [OF this, of p e 1000] False show ?thesis
    by (simp add: soap_request_def no_reply_def receive_until_empty_iff)
qed

lemma soap_request_fields:
  "state (snd (soap_request p e action fmt s)) = state s \<and>
   controller_started (snd (soap_request p e action fmt s)) = controller_started s"
  by (simp add: soap_request_def soap_request_end_fields soap_request_start_fields)

lemma soap_request_sends:
  "sends (trace (snd (soap_request p e action fmt s))) =
     sends (trace s) @
       (if fst (get_socket (create_os e) (pool_queue e)) < 0 then []
        else [http_request action (if length fmt > 0 then take 1023 fmt else [])])"
  by (simp only: soap_request_def soap_request_end_sends soap_request_start_sends)

lemma soap_request_waits:
  "waits (trace (snd (soap_request p e action fmt s))) =
     waits (trace s) @ (if start_fails e then [] else [(1, 0)])"
proof (cases "start_fails e")
  case True
  then show ?thesis by (simp add: soap_request_failed_start soap_request_start_waits)
next
  case False
  then have "0 \<le> sock_fd (snd (soap_request_start e action fmt s))"
    by (rule soap_request_start_fd [THEN conjunct2])
  from soap_request_end_waits [OF this, of p e 1000] False show ?thesis
    by (simp add: soap_request_def soap_request_start_waits)
qed


subsection \<open>The session\<close>

lemma exchange_body_nonempty: "0 < length (exchange_body pr input)"
  by (simp add: exchange_body_def)

lemma exchange_data_request:
  "exchange_data p e input s =
     (case fst (soap_request p e ''ExchangeData'' (exchange_body (print_double p) input) s) of
        Some response \<Rightarrow>
          (snd (soap_request p e ''ExchangeData'' (exchange_body (print_double p) input) s))
            \<lparr>state := parse_reply p (c_str response) (state s)\<rparr>
      | None \<Rightarrow> snd (soap_request p e ''ExchangeData'' (exchange_body (print_double p) input) s))"
proof (cases "start_fails e")
  case True
  then have "\<not> fst (soap_request_start e ''ExchangeData''
      (exchange_body (print_double p) input) s)"
    by (simp add: soap_request_start_ok)
  with True show ?thesis
    by (simp add: exchange_data_def Let_def soap_request_failed_start)
next
  case False
  then have "fst (soap_request_start e ''ExchangeData''
      (exchange_body (print_double p) input) s)"
    by (simp add: soap_request_start_ok)
  then show ?thesis
    by (simp add: exchange_data_def Let_def soap_request_def soap_request_end_fields
        soap_request_start_fields split: option.splits)
qed

lemma exchange_data_state:
  "state (exchange_data p e input s) =
     (if no_reply p e then state s
      else parse_reply p
        (c_str (receive_until marker_in_c_str (reply_buffer_size p - 1) [] (incoming e)))
        (state s))"
  by (simp add: exchange_data_request soap_request_result soap_request_fields c_str_padded)

lemma exchange_data_started:
  "controller_started (exchange_data p e input s) = controller_started s"
  by (simp add: exchange_data_request soap_request_fields split: option.splits)

lemma exchange_data_sends:
  "sends (trace (exchange_data p e input s)) =
     sends (trace s) @
       (if fst (get_socket (create_os e) (pool_queue e)) < 0 then []
        else [exchange_request p input])"
  by (simp add: exchange_data_request soap_request_sends exchange_body_nonempty
      exchange_request_def split: option.splits)

lemma exchange_data_waits:
  "waits (trace (exchange_data p e input s)) =
     waits (trace s) @ (if start_fails e then [] else [(1, 0)])"
  by (simp add: exchange_data_request soap_request_waits split: option.splits)

lemma update_active:
  "controller_started s \<Longrightarrow> update p ue input s = exchange_data p (exchange_env ue) input s"
  by (simp add: update_def)

lemma update_uninit:
  "\<not> controller_started s \<Longrightarrow>
   update p ue input s =
     (if no_reply p (inject_env ue)
      then snd (soap_request p (inject_env ue) ''InjectUAVControllerInterface'' inject_body s)
      else exchange_data p (exchange_env ue) input
        ((snd (soap_request p (inject_env ue) ''InjectUAVControllerInterface'' inject_body s))
           \<lparr>controller_started := True\<rparr>))"
proof (cases "start_fails (inject_env ue)")
  case True
  assume "\<not> controller_started s"
  moreover from True have "\<not> fst (soap_request_start (inject_env ue)
      ''InjectUAVControllerInterface'' inject_body s)"
    by (simp add: soap_request_start_ok)
  ultimately show ?thesis using True
    by (simp add: update_def Let_def soap_request_failed_start no_reply_def)
next
  case False
  assume u: "\<not> controller_started s"
  from False have ok: "fst (soap_request_start (inject_env ue)
      ''InjectUAVControllerInterface'' inject_body s)"
    by (simp add: soap_request_start_ok)
  have r: "fst (soap_request p (inject_env ue) ''InjectUAVControllerInterface'' inject_body s)
      = None \<longleftrightarrow> no_reply p (inject_env ue)"
    by (simp add: soap_request_result)
  show ?thesis
  proof (cases "no_reply p (inject_env ue)")
    case True
    with r have "fst (soap_request_end p (inject_env ue) 1000
        (snd (soap_request_start (inject_env ue) ''InjectUAVControllerInterface''
          inject_body s))) = None"
      by (simp add: soap_request_def)
    with u ok True show ?thesis by (simp add: update_def Let_def soap_request_def)
  next
    case n: False
    with r obtain b where "fst (soap_request_end p (inject_env ue) 1000
        (snd (soap_request_start (inject_env ue) ''InjectUAVControllerInterface''
          inject_body s))) = Some b"
      by (auto simp: soap_request_def)
    with u ok n show ?thesis by (simp add: update_def Let_def soap_request_def)
  qed
qed

subsection \<open>Replies\<close>

lemma loop_total_eq:
  "loop_total cap fd inc = length (receive_until marker_in_c_str (cap - 1) [] inc)"
  unfolding loop_total_def by (rule recv_loop_zeroed [THEN conjunct1])

lemma loop_total_zero_iff: "loop_total cap fd inc = 0 \<longleftrightarrow> recv_data (cap - 1) inc = []"
  by (simp add: loop_total_eq receive_until_empty_iff)

lemma receive_until_prefix_stream:
  "receive_until d room [] inc = take (length (receive_until d room [] inc)) (stream_bytes inc) \<and>
   length (receive_until d room [] inc) \<le> length (stream_bytes inc)"
proof -
  from receive_until_stream [of d room "[]" inc] obtain k where
    k: "receive_until d room [] inc = take k (stream_bytes inc)" by auto
  then have "length (receive_until d room [] inc) = min (length (stream_bytes inc)) k"
    by simp
  with k show ?thesis by (simp add: min_def split: if_splits)
qed

text \<open>
  Claim C4. A data exchange that gets no reply (the request cannot be started, the
  wait ends without the connection being readable, or no byte is read) leaves every
  field of the telemetry record \<^verbatim>\<open>state\<close> as it was, in \<^verbatim>\<open>exchange_data\<close> and so
  in every call of \<^verbatim>\<open>update\<close> on a started session. No byte is read, that is
  \<^verbatim>\<open>total_received\<close> ends at 0, exactly when the first \<^verbatim>\<open>recv\<close> delivers
  nothing.
\<close>

theorem failed_cycle_keeps_state:
  "(no_reply p e \<longrightarrow> state (exchange_data p e input s) = state s) \<and>
   (controller_started s \<and> no_reply p (exchange_env ue) \<longrightarrow>
      state (update p ue input s) = state s) \<and>
   (loop_total (reply_buffer_size p) fd (incoming e) = 0 \<longleftrightarrow>
      recv_data (reply_buffer_size p - 1) (incoming e) = [])"
  by (simp add: exchange_data_state update_active loop_total_zero_iff)

theorem failed_cycle_keeps_state_witness:
  "no_reply example_platform env_silent \<and>
   state (exchange_data example_platform env_silent example_input
     ((RFInterface_init example_platform)\<lparr>state := (\<lambda>_. 9)\<rparr>)) = (\<lambda>_. 9) \<and>
   state (update example_platform \<lparr>inject_env = env_reply, exchange_env = env_refused\<rparr>
     example_input
     ((RFInterface_init example_platform)\<lparr>controller_started := True, state := (\<lambda>_. 9)\<rparr>))
     = (\<lambda>_. 9)"
proof -
  have a: "no_reply example_platform env_silent"
    by (simp add: no_reply_def env_silent_def)
  have b: "no_reply example_platform env_refused"
    by (simp add: no_reply_def start_fails_def env_refused_def get_socket_def
        create_connection_def)
  have c: "controller_started
      ((RFInterface_init example_platform)\<lparr>controller_started := True, state := (\<lambda>_. 9)\<rparr>)"
    by simp
  note t1 = failed_cycle_keeps_state [of example_platform env_silent example_input
      "(RFInterface_init example_platform)\<lparr>state := (\<lambda>_. 9)\<rparr>"]
  note t2 = failed_cycle_keeps_state [of example_platform _ example_input
      "(RFInterface_init example_platform)\<lparr>controller_started := True, state := (\<lambda>_. 9)\<rparr>"
      "\<lparr>inject_env = env_reply, exchange_env = env_refused\<rparr>"]
  from t1 a have 1: "state (exchange_data example_platform env_silent example_input
     ((RFInterface_init example_platform)\<lparr>state := (\<lambda>_. 9)\<rparr>)) = (\<lambda>_. 9)"
    by simp
  from t2 b c have 2: "state (update example_platform
     \<lparr>inject_env = env_reply, exchange_env = env_refused\<rparr> example_input
     ((RFInterface_init example_platform)\<lparr>controller_started := True, state := (\<lambda>_. 9)\<rparr>))
     = (\<lambda>_. 9)"
    by simp
  from a 1 2 show ?thesis by (intro conjI)
qed

text \<open>
  Claim C5. Called with an open connection, \<^verbatim>\<open>soap_request_end\<close> closes that
  connection exactly once and leaves \<^verbatim>\<open>sock_fd\<close> at -1, whatever happens. It returns
  \<^verbatim>\<open>nullptr\<close> when \<^verbatim>\<open>select\<close> reports a timeout or an error, and when no byte was
  received; otherwise it returns the buffer, whose first \<^verbatim>\<open>total_received\<close> bytes are
  the bytes received from the peer.
\<close>

theorem soap_request_end_one_shot:
  assumes "0 \<le> sock_fd s"
  shows "sock_fd (snd (soap_request_end p e t s)) = - 1 \<and>
    closes (trace (snd (soap_request_end p e t s))) = closes (trace s) @ [sock_fd s] \<and>
    (select_res e \<le> 0 \<longrightarrow> fst (soap_request_end p e t s) = None) \<and>
    (0 < select_res e \<and> loop_total (reply_buffer_size p) (sock_fd s) (incoming e) = 0 \<longrightarrow>
       fst (soap_request_end p e t s) = None) \<and>
    (0 < select_res e \<and> 0 < loop_total (reply_buffer_size p) (sock_fd s) (incoming e) \<longrightarrow>
       fst (soap_request_end p e t s) = Some (reply_buffer (snd (soap_request_end p e t s))) \<and>
       take (loop_total (reply_buffer_size p) (sock_fd s) (incoming e))
         (reply_buffer (snd (soap_request_end p e t s))) =
         take (loop_total (reply_buffer_size p) (sock_fd s) (incoming e))
           (stream_bytes (incoming e)) \<and>
       loop_total (reply_buffer_size p) (sock_fd s) (incoming e)
         \<le> length (stream_bytes (incoming e)))"
proof -
  let ?cap = "reply_buffer_size p"
  let ?R = "receive_until marker_in_c_str (?cap - 1) [] (incoming e)"
  have n: "loop_total ?cap (sock_fd s) (incoming e) = length ?R" by (rule loop_total_eq)
  note ps = receive_until_prefix_stream [of marker_in_c_str "?cap - 1" "incoming e"]
  have a: "sock_fd (snd (soap_request_end p e t s)) = - 1"
    using assms by (rule soap_request_end_fd)
  have b: "closes (trace (snd (soap_request_end p e t s))) = closes (trace s) @ [sock_fd s]"
    using assms by (rule soap_request_end_closes)
  note r = soap_request_end_result [OF assms, of p e t]
  note bf = soap_request_end_buffer [OF assms, of p e t]
  have c: "fst (soap_request_end p e t s) = None" if "select_res e \<le> 0"
    using r that by simp
  have d: "fst (soap_request_end p e t s) = None"
    if "0 < select_res e \<and> loop_total ?cap (sock_fd s) (incoming e) = 0"
    using r that n by simp
  have f: "fst (soap_request_end p e t s) = Some (reply_buffer (snd (soap_request_end p e t s))) \<and>
      take (loop_total ?cap (sock_fd s) (incoming e))
        (reply_buffer (snd (soap_request_end p e t s))) =
        take (loop_total ?cap (sock_fd s) (incoming e)) (stream_bytes (incoming e)) \<and>
      loop_total ?cap (sock_fd s) (incoming e) \<le> length (stream_bytes (incoming e))"
    if h: "0 < select_res e \<and> 0 < loop_total ?cap (sock_fd s) (incoming e)"
  proof -
    from h n have ne: "?R \<noteq> []" and sel: "\<not> select_res e \<le> 0" by auto
    from r ne sel bf have 1: "fst (soap_request_end p e t s) =
        Some (reply_buffer (snd (soap_request_end p e t s)))" by simp
    from bf sel have "take (length ?R) (reply_buffer (snd (soap_request_end p e t s))) = ?R"
      by simp
    with ps have 2: "take (length ?R) (reply_buffer (snd (soap_request_end p e t s))) =
        take (length ?R) (stream_bytes (incoming e))" by simp
    from 1 2 ps show ?thesis unfolding n by blast
  qed
  from a b c d f show ?thesis by blast
qed

theorem soap_request_end_one_shot_witness:
  "sock_fd (snd (soap_request_end example_platform env_reply 1000
     ((RFInterface_init example_platform)\<lparr>sock_fd := 4\<rparr>))) = - 1 \<and>
   closes (trace (snd (soap_request_end example_platform env_reply 1000
     ((RFInterface_init example_platform)\<lparr>sock_fd := 4\<rparr>)))) = [4] \<and>
   fst (soap_request_end example_platform env_silent 1000
     ((RFInterface_init example_platform)\<lparr>sock_fd := 4\<rparr>)) = None \<and>
   fst (soap_request_end example_platform env_reply 1000
     ((RFInterface_init example_platform)\<lparr>sock_fd := 4\<rparr>)) =
     Some (reply_buffer (snd (soap_request_end example_platform env_reply 1000
       ((RFInterface_init example_platform)\<lparr>sock_fd := 4\<rparr>))))"
proof -
  let ?s = "(RFInterface_init example_platform)\<lparr>sock_fd := 4\<rparr>"
  have fd: "0 \<le> sock_fd ?s" by simp
  have sel: "0 < select_res env_reply" by (simp add: env_reply_def)
  have sil: "select_res env_silent \<le> 0" by (simp add: env_silent_def)
  have n: "0 < loop_total (reply_buffer_size example_platform) (sock_fd ?s)
      (incoming env_reply)"
    by code_simp
  note t1 = soap_request_end_one_shot [OF fd, of example_platform env_reply 1000]
  note t2 = soap_request_end_one_shot [OF fd, of example_platform env_silent 1000]
  from t1 have 1: "sock_fd (snd (soap_request_end example_platform env_reply 1000 ?s)) = - 1"
    by (rule conjunct1)
  from t1 have 2: "closes (trace (snd (soap_request_end example_platform env_reply 1000 ?s)))
      = [4]"
    by (simp add: RFInterface_init_def)
  from t2 sil have 3: "fst (soap_request_end example_platform env_silent 1000 ?s) = None"
    by blast
  from t1 sel n have 4: "fst (soap_request_end example_platform env_reply 1000 ?s) =
     Some (reply_buffer (snd (soap_request_end example_platform env_reply 1000 ?s)))"
    by blast
  from 1 2 3 4 show ?thesis by (intro conjI)
qed

text \<open>
  Claim C10. Every \<^verbatim>\<open>recv\<close> and every write of \<^verbatim>\<open>soap_request_end\<close> stays inside
  \<^verbatim>\<open>reply_buffer\<close>; at most its size minus one bytes are accumulated; when bytes
  were received the last action is the write of the terminating NUL, inside the
  buffer; and a buffer handed to the decoder holds a NUL byte, at index
  \<^verbatim>\<open>total_received\<close>, so that its string is no longer than the size minus one.
\<close>

theorem reply_buffer_bounds:
  "list_all (in_bounds (reply_buffer_size p))
     (drop (length (trace s)) (trace (snd (soap_request_end p e t s)))) \<and>
   loop_total (reply_buffer_size p) fd (incoming e) \<le> reply_buffer_size p - 1 \<and>
   (0 \<le> sock_fd s \<and> 0 < select_res e \<and>
    0 < loop_total (reply_buffer_size p) (sock_fd s) (incoming e) \<longrightarrow>
      last (trace (snd (soap_request_end p e t s))) =
        BufWrite (loop_total (reply_buffer_size p) (sock_fd s) (incoming e)) 1 \<and>
      loop_total (reply_buffer_size p) (sock_fd s) (incoming e) < reply_buffer_size p) \<and>
   (fst (soap_request_end p e t s) = Some b \<longrightarrow>
      length b = reply_buffer_size p \<and>
      b ! loop_total (reply_buffer_size p) (sock_fd s) (incoming e) = NUL \<and>
      NUL \<in> set b \<and>
      length (c_str b) \<le> reply_buffer_size p - 1)"
proof -
  let ?cap = "reply_buffer_size p"
  let ?R = "receive_until marker_in_c_str (?cap - 1) [] (incoming e)"
  have n: "loop_total ?cap fd' (incoming e) = length ?R" for fd' by (rule loop_total_eq)
  have le: "length ?R \<le> ?cap - 1" by (rule receive_until_length) simp
  have a: "list_all (in_bounds ?cap)
      (drop (length (trace s)) (trace (snd (soap_request_end p e t s))))"
    by (rule soap_request_end_trace [THEN conjunct2])
  have c: "last (trace (snd (soap_request_end p e t s))) =
        BufWrite (loop_total ?cap (sock_fd s) (incoming e)) 1 \<and>
      loop_total ?cap (sock_fd s) (incoming e) < ?cap"
    if h: "0 \<le> sock_fd s \<and> 0 < select_res e \<and> 0 < loop_total ?cap (sock_fd s) (incoming e)"
  proof -
    from h n have ne: "?R \<noteq> []" by auto
    then have "0 < length ?R" by simp
    with le have "length ?R < ?cap" by linarith
    moreover from h ne have "last (trace (snd (soap_request_end p e t s))) =
        BufWrite (length ?R) 1"
      by (simp add: soap_request_end_last_write)
    ultimately show ?thesis unfolding n by simp
  qed
  have d: "length b = ?cap \<and> b ! loop_total ?cap (sock_fd s) (incoming e) = NUL \<and>
      NUL \<in> set b \<and> length (c_str b) \<le> ?cap - 1"
    if h: "fst (soap_request_end p e t s) = Some b"
  proof -
    have fd: "0 \<le> sock_fd s"
    proof (rule ccontr)
      assume "\<not> 0 \<le> sock_fd s"
      then have "soap_request_end p e t s = (None, s)"
        by (simp add: soap_request_end_closed_fd)
      with h show False by simp
    qed
    from soap_request_end_result [OF fd, of p e t] h
    have ne: "?R \<noteq> []" and b: "b = ?R @ replicate (?cap - length ?R) NUL"
      by (auto split: if_splits)
    from ne have "0 < length ?R" by simp
    with le have lt: "length ?R < ?cap" by linarith
    then have 1: "length b = ?cap" unfolding b by simp
    from lt have 2: "b ! length ?R = NUL" unfolding b by (simp add: nth_append)
    from lt 1 2 have 3: "NUL \<in> set b" by (metis nth_mem)
    have "c_str b = c_str ?R" unfolding b by (rule c_str_padded)
    moreover have "length (c_str ?R) \<le> length ?R"
      unfolding c_str_def by (rule length_takeWhile_le)
    ultimately have 4: "length (c_str b) \<le> ?cap - 1" using le by simp
    from 1 2 3 4 show ?thesis unfolding n by blast
  qed
  from a le c d show ?thesis unfolding n [of fd] by blast
qed


theorem reply_buffer_bounds_witness:
  "length (reply_buffer (snd (soap_request_end example_platform env_reply 1000
     ((RFInterface_init example_platform)\<lparr>sock_fd := 4\<rparr>)))) = 64 \<and>
   NUL \<in> set (reply_buffer (snd (soap_request_end example_platform env_reply 1000
     ((RFInterface_init example_platform)\<lparr>sock_fd := 4\<rparr>)))) \<and>
   last (trace (snd (soap_request_end example_platform env_reply 1000
     ((RFInterface_init example_platform)\<lparr>sock_fd := 4\<rparr>)))) = BufWrite 57 1"
proof -
  let ?s = "(RFInterface_init example_platform)\<lparr>sock_fd := 4\<rparr>"
  let ?b = "reply_buffer (snd (soap_request_end example_platform env_reply 1000 ?s))"
  have fd: "0 \<le> sock_fd ?s" by simp
  have sel: "0 < select_res env_reply" by (simp add: env_reply_def)
  have n: "loop_total (reply_buffer_size example_platform) (sock_fd ?s)
      (incoming env_reply) = 57"
    by code_simp
  have r: "fst (soap_request_end example_platform env_reply 1000 ?s) = Some ?b"
    by code_simp
  have c: "reply_buffer_size example_platform = 64" by (simp add: example_platform_def)
  note t = reply_buffer_bounds [of example_platform ?s env_reply 1000 4 ?b]
  from t r c have 1: "length ?b = 64" by simp
  from t r have 2: "NUL \<in> set ?b" by blast
  from t fd sel n have 3: "last (trace (snd (soap_request_end example_platform env_reply 1000
      ?s))) = BufWrite 57 1"
    by simp
  from 1 2 3 show ?thesis by (intro conjI)
qed

text \<open>
  Claim C8, as stated, at a reply with a NUL byte before the closing tag. The peer
  sends a NUL byte and the closing tag in one segment of 21 bytes, then one more byte.
  Reading until the accumulated bytes contain the closing tag ends after the first
  segment, with 21 bytes. The loop of the code searches the buffer as a C string,
  which ends at the NUL byte, so it does not see the tag and reads on: 22 bytes.
\<close>

theorem recv_loop_marker_counterexample:
  "loop_total 64 4 [NUL # envelope_end, ''x''] = 22 \<and>
   length (receive_until marker_in_bytes 63 [] [NUL # envelope_end, ''x'']) = 21 \<and>
   marker_in_bytes (NUL # envelope_end) \<and>
   loop_total 64 4 [NUL # envelope_end, ''x''] \<noteq>
     length (receive_until marker_in_bytes (64 - 1) [] [NUL # envelope_end, ''x''])"
  by code_simp

text \<open>
  Claim C8, amended. The loop ends exactly when the buffer is full (its size minus
  one bytes), or a \<^verbatim>\<open>recv\<close> delivers nothing, or the accumulated bytes up to their
  first NUL byte contain the closing tag: it accumulates the bytes that reading until
  then accumulates. For a reply without NUL bytes this is reading until the
  accumulated bytes contain the closing tag. A reply that never contains the closing
  tag is accumulated until the peer closes or the buffer is full, and is returned if
  it has at least one byte.
\<close>

theorem recv_loop_stops:
  "loop_total cap fd inc = length (receive_until marker_in_c_str (cap - 1) [] inc) \<and>
   take (loop_total cap fd inc) (fst (snd (recv_loop cap fd 0 (replicate cap NUL) inc []))) =
     receive_until marker_in_c_str (cap - 1) [] inc \<and>
   (NUL \<notin> set (stream_bytes inc) \<longrightarrow>
      receive_until marker_in_c_str (cap - 1) [] inc =
        receive_until marker_in_bytes (cap - 1) [] inc) \<and>
   (\<not> sublist envelope_end (stream_bytes inc) \<longrightarrow>
      receive_until marker_in_c_str (cap - 1) [] inc = take (cap - 1) (stream_bytes inc)) \<and>
   (\<not> sublist envelope_end (stream_bytes (incoming e)) \<and> 0 \<le> sock_fd s \<and>
    0 < select_res e \<and> take (reply_buffer_size p - 1) (stream_bytes (incoming e)) \<noteq> [] \<longrightarrow>
      fst (soap_request_end p e t s) =
        Some (take (reply_buffer_size p - 1) (stream_bytes (incoming e)) @
          replicate (reply_buffer_size p -
            length (take (reply_buffer_size p - 1) (stream_bytes (incoming e)))) NUL))"
proof -
  have a: "loop_total cap fd inc = length (receive_until marker_in_c_str (cap - 1) [] inc)"
    by (rule loop_total_eq)
  have b: "take (loop_total cap fd inc)
      (fst (snd (recv_loop cap fd 0 (replicate cap NUL) inc []))) =
      receive_until marker_in_c_str (cap - 1) [] inc"
    unfolding a recv_loop_zeroed [of cap fd inc "[]", THEN conjunct2] by simp
  have c: "receive_until marker_in_c_str (cap - 1) [] inc =
      receive_until marker_in_bytes (cap - 1) [] inc" if "NUL \<notin> set (stream_bytes inc)"
    using that by (rule receive_until_text)
  have d: "receive_until marker_in_c_str (cap - 1) [] inc = take (cap - 1) (stream_bytes inc)"
    if "\<not> sublist envelope_end (stream_bytes inc)"
    using that by (rule receive_until_no_marker)
  have f: "fst (soap_request_end p e t s) =
      Some (take (reply_buffer_size p - 1) (stream_bytes (incoming e)) @
        replicate (reply_buffer_size p -
          length (take (reply_buffer_size p - 1) (stream_bytes (incoming e)))) NUL)"
    if h: "\<not> sublist envelope_end (stream_bytes (incoming e)) \<and> 0 \<le> sock_fd s \<and>
      0 < select_res e \<and> take (reply_buffer_size p - 1) (stream_bytes (incoming e)) \<noteq> []"
  proof -
    from h have "receive_until marker_in_c_str (reply_buffer_size p - 1) [] (incoming e) =
        take (reply_buffer_size p - 1) (stream_bytes (incoming e))"
      by (simp add: receive_until_no_marker)
    moreover from h have "0 \<le> sock_fd s" by simp
    note soap_request_end_result [OF this, of p e t]
    ultimately show ?thesis using h by simp
  qed
  from a b c d f show ?thesis by blast
qed

theorem recv_loop_stops_witness:
  "\<not> sublist envelope_end (stream_bytes (incoming env_unmarked)) \<and>
   fst (soap_request_end example_platform env_unmarked 1000
     ((RFInterface_init example_platform)\<lparr>sock_fd := 6\<rparr>)) =
     Some (''<a>1</a><b>2</b>'' @ replicate 48 NUL) \<and>
   receive_until marker_in_c_str 63 [] (incoming env_reply) =
     receive_until marker_in_bytes 63 [] (incoming env_reply)"
proof -
  let ?s = "(RFInterface_init example_platform)\<lparr>sock_fd := 6\<rparr>"
  have nm: "\<not> sublist envelope_end (stream_bytes (incoming env_unmarked))"
    by code_simp
  have fd: "0 \<le> sock_fd ?s" by simp
  have sel: "0 < select_res env_unmarked" by (simp add: env_unmarked_def)
  have ne: "take (reply_buffer_size example_platform - 1)
      (stream_bytes (incoming env_unmarked)) \<noteq> []"
    by code_simp
  have v: "take (reply_buffer_size example_platform - 1)
        (stream_bytes (incoming env_unmarked)) @
      replicate (reply_buffer_size example_platform -
        length (take (reply_buffer_size example_platform - 1)
          (stream_bytes (incoming env_unmarked)))) NUL =
      ''<a>1</a><b>2</b>'' @ replicate 48 NUL"
    by code_simp
  have nn: "NUL \<notin> set (stream_bytes (incoming env_reply))"
    by code_simp
  note t1 = recv_loop_stops [of _ _ _ env_unmarked ?s example_platform 1000]
  note t2 = recv_loop_stops [of 64 4 "incoming env_reply" env_reply ?s example_platform 1000,
      THEN conjunct2, THEN conjunct2, THEN conjunct1]
  from t1 nm fd sel ne have "fst (soap_request_end example_platform env_unmarked 1000 ?s) =
      Some (take (reply_buffer_size example_platform - 1)
          (stream_bytes (incoming env_unmarked)) @
        replicate (reply_buffer_size example_platform -
          length (take (reply_buffer_size example_platform - 1)
            (stream_bytes (incoming env_unmarked)))) NUL)"
    by blast
  then have 1: "fst (soap_request_end example_platform env_unmarked 1000 ?s) =
      Some (''<a>1</a><b>2</b>'' @ replicate 48 NUL)"
    unfolding v .
  from t2 nn have 2: "receive_until marker_in_c_str 63 [] (incoming env_reply) =
      receive_until marker_in_bytes 63 [] (incoming env_reply)"
    by simp
  from nm 1 2 show ?thesis by (intro conjI)
qed

subsection \<open>The handshake\<close>

lemma inject_body_fmt: "(if length inject_body > 0 then take 1023 inject_body else []) = inject_body"
  by (simp add: inject_body_def)

lemma handshake_sends:
  "sends (trace (snd (soap_request p e ''InjectUAVControllerInterface'' inject_body s))) =
     sends (trace s) @
       (if fst (get_socket (create_os e) (pool_queue e)) < 0 then [] else [handshake_request])"
  by (simp only: soap_request_sends inject_body_fmt handshake_request_def)

lemma update_started:
  "controller_started (update p ue input s) \<longleftrightarrow>
     controller_started s \<or> \<not> no_reply p (inject_env ue)"
proof (cases "controller_started s")
  case True
  then show ?thesis by (simp add: update_active exchange_data_started)
next
  case False
  then show ?thesis
    by (simp add: update_uninit exchange_data_started soap_request_fields)
qed

lemma update_failed_handshake:
  "\<not> controller_started s \<Longrightarrow> no_reply p (inject_env ue) \<Longrightarrow>
   update p ue input s =
     snd (soap_request p (inject_env ue) ''InjectUAVControllerInterface'' inject_body s)"
  by (simp add: update_uninit)

lemma update_uninit_sends:
  "\<not> controller_started s \<Longrightarrow>
   sends (trace (update p ue input s)) =
     sends (trace s) @
       (if fst (get_socket (create_os (inject_env ue)) (pool_queue (inject_env ue))) < 0
        then [] else [handshake_request]) @
       (if no_reply p (inject_env ue) \<or>
           fst (get_socket (create_os (exchange_env ue)) (pool_queue (exchange_env ue))) < 0
        then [] else [exchange_request p input])"
  by (simp add: update_uninit exchange_data_sends handshake_sends)

lemma update_uninit_waits:
  "\<not> controller_started s \<Longrightarrow>
   waits (trace (update p ue input s)) =
     waits (trace s) @
       (if start_fails (inject_env ue) then [] else [(1, 0)]) @
       (if no_reply p (inject_env ue) \<or> start_fails (exchange_env ue) then [] else [(1, 0)])"
  by (simp add: update_uninit exchange_data_waits soap_request_waits)

lemma updates_active:
  "controller_started s \<Longrightarrow>
   updates p calls s = exchanges p calls s \<and> controller_started (updates p calls s)"
proof (induction calls arbitrary: s)
  case Nil
  then show ?case by simp
next
  case (Cons c calls)
  obtain ue input where c: "c = (ue, input)" by (cases c)
  from Cons.prems have "controller_started (exchange_data p (exchange_env ue) input s)"
    by (simp add: exchange_data_started)
  from Cons.IH [OF this] Cons.prems c show ?case by (auto simp: update_active)
qed

text \<open>
  Claim C3. The constructor leaves the session not started. A call of \<^verbatim>\<open>update\<close> on
  a session not started begins with the handshake: if the pool yields a connection,
  the first request sent is the fixed handshake request, and the wait for its reply
  is bounded by one second. If the handshake gets its reply the session is started
  after the call. If it gets none the session stays not started, the telemetry is
  untouched, nothing but the handshake request was sent, and the next call begins with
  the handshake again. Every call on a started session is a data exchange and nothing
  else, and the session stays started, over any sequence of calls.
\<close>

theorem update_handshake:
  "\<not> controller_started (RFInterface_init p) \<and>
   (\<not> controller_started s \<longrightarrow>
      prefix (sends (trace s) @
          (if fst (get_socket (create_os (inject_env ue)) (pool_queue (inject_env ue))) < 0
           then [] else [handshake_request]))
        (sends (trace (update p ue input s))) \<and>
      prefix (waits (trace s) @ (if start_fails (inject_env ue) then [] else [(1, 0)]))
        (waits (trace (update p ue input s)))) \<and>
   (\<not> controller_started s \<and> \<not> no_reply p (inject_env ue) \<longrightarrow>
      controller_started (update p ue input s)) \<and>
   (\<not> controller_started s \<and> no_reply p (inject_env ue) \<longrightarrow>
      \<not> controller_started (update p ue input s) \<and>
      state (update p ue input s) = state s \<and>
      sends (trace (update p ue input s)) =
        sends (trace s) @
          (if fst (get_socket (create_os (inject_env ue)) (pool_queue (inject_env ue))) < 0
           then [] else [handshake_request]) \<and>
      prefix (sends (trace (update p ue input s)) @
          (if fst (get_socket (create_os (inject_env ue')) (pool_queue (inject_env ue'))) < 0
           then [] else [handshake_request]))
        (sends (trace (update p ue' input' (update p ue input s))))) \<and>
   (controller_started s \<longrightarrow>
      update p ue input s = exchange_data p (exchange_env ue) input s \<and>
      controller_started (update p ue input s) \<and>
      updates p calls s = exchanges p calls s \<and>
      controller_started (updates p calls s))"
proof -
  let ?hs = "\<lambda>ue. if fst (get_socket (create_os (inject_env ue)) (pool_queue (inject_env ue))) < 0
     then [] else [handshake_request]"
  have a: "\<not> controller_started (RFInterface_init p)"
    by (simp add: RFInterface_init_def)
  have pre: "prefix (sends (trace s0) @ ?hs ue0) (sends (trace (update p ue0 input0 s0)))"
    if "\<not> controller_started s0" for s0 ue0 input0
    using update_uninit_sends [OF that, of p ue0 input0] by simp
  have b: "prefix (sends (trace s) @ ?hs ue) (sends (trace (update p ue input s))) \<and>
      prefix (waits (trace s) @ (if start_fails (inject_env ue) then [] else [(1, 0)]))
        (waits (trace (update p ue input s)))"
    if u: "\<not> controller_started s"
    using pre [OF u] update_uninit_waits [OF u, of p ue input] by simp
  have c: "controller_started (update p ue input s)"
    if "\<not> controller_started s \<and> \<not> no_reply p (inject_env ue)"
    using that by (simp add: update_started)
  have d: "\<not> controller_started (update p ue input s) \<and>
      state (update p ue input s) = state s \<and>
      sends (trace (update p ue input s)) = sends (trace s) @ ?hs ue \<and>
      prefix (sends (trace (update p ue input s)) @ ?hs ue')
        (sends (trace (update p ue' input' (update p ue input s))))"
    if h: "\<not> controller_started s \<and> no_reply p (inject_env ue)"
  proof -
    from h have 1: "\<not> controller_started (update p ue input s)"
      by (simp add: update_started)
    from h have 2: "state (update p ue input s) = state s"
      by (simp add: update_failed_handshake soap_request_fields)
    from h have 3: "sends (trace (update p ue input s)) = sends (trace s) @ ?hs ue"
      by (simp add: update_uninit_sends)
    from 1 have 4: "prefix (sends (trace (update p ue input s)) @ ?hs ue')
        (sends (trace (update p ue' input' (update p ue input s))))"
      by (rule pre)
    from 1 2 3 4 show ?thesis by blast
  qed
  have f: "update p ue input s = exchange_data p (exchange_env ue) input s \<and>
      controller_started (update p ue input s) \<and>
      updates p calls s = exchanges p calls s \<and>
      controller_started (updates p calls s)"
    if h: "controller_started s"
    using h updates_active [OF h, of p calls]
    by (auto simp: update_active exchange_data_started)
  from a b c d f show ?thesis by blast
qed

theorem update_handshake_witness:
  "\<not> controller_started
      (update example_platform calls_refused example_input (RFInterface_init example_platform)) \<and>
   sends (trace
      (update example_platform calls_refused example_input (RFInterface_init example_platform)))
     = [] \<and>
   controller_started
      (update example_platform calls_reply example_input (RFInterface_init example_platform)) \<and>
   prefix [handshake_request]
     (sends (trace
       (update example_platform calls_reply example_input
         (update example_platform calls_refused example_input
           (RFInterface_init example_platform))))) \<and>
   controller_started
     (updates example_platform [(calls_refused, example_input), (calls_reply, example_input)]
       (update example_platform calls_reply example_input
         (RFInterface_init example_platform)))"
proof -
  let ?p = example_platform
  let ?s0 = "RFInterface_init example_platform"
  have u: "\<not> controller_started ?s0" by (simp add: RFInterface_init_def)
  have tr: "sends (trace ?s0) = []" by (simp add: RFInterface_init_def)
  have nr: "no_reply ?p (inject_env calls_refused)"
    by (simp add: calls_refused_def no_reply_def start_fails_def env_refused_def get_socket_def
        create_connection_def)
  have fdr: "fst (get_socket (create_os (inject_env calls_refused))
      (pool_queue (inject_env calls_refused))) < 0"
    by (simp add: calls_refused_def env_refused_def get_socket_def create_connection_def)
  have rp: "\<not> no_reply ?p (inject_env calls_reply)"
    by (simp add: calls_reply_def no_reply_def start_fails_def env_reply_def get_socket_def
        example_platform_def recv_data_def)
  have fdp: "\<not> fst (get_socket (create_os (inject_env calls_reply))
      (pool_queue (inject_env calls_reply))) < 0"
    by (simp add: calls_reply_def env_reply_def get_socket_def)
  note t1 = update_handshake [of ?p ?s0 calls_refused example_input calls_reply example_input]
  note t2 = update_handshake [of ?p ?s0 calls_reply example_input]
  from t1 u nr have 1: "\<not> controller_started (update ?p calls_refused example_input ?s0)"
    by blast
  from t1 u nr fdr tr have 2: "sends (trace (update ?p calls_refused example_input ?s0)) = []"
    by simp
  from t2 u rp have 3: "controller_started (update ?p calls_reply example_input ?s0)"
    by blast
  from t1 u nr fdp fdr tr have 4: "prefix [handshake_request]
     (sends (trace (update ?p calls_reply example_input
       (update ?p calls_refused example_input ?s0))))"
    by clarsimp
  note t3 = update_handshake [of ?p "update ?p calls_reply example_input ?s0" _ _ _ _
      "[(calls_refused, example_input), (calls_reply, example_input)]"]
  from t3 3 have 5: "controller_started
     (updates ?p [(calls_refused, example_input), (calls_reply, example_input)]
       (update ?p calls_reply example_input ?s0))"
    by blast
  from 1 2 3 4 5 show ?thesis by (intro conjI)
qed

text \<open>
  Claim C9. When the handshake of a call of \<^verbatim>\<open>update\<close> on a session not started
  gets its reply, the same call goes on with the whole data exchange: it is
  \<^verbatim>\<open>exchange_data\<close> on the state that the handshake left, now started; the
  handshake request is followed by the data-exchange request built from the supplied
  input, if the pool yields a connection; and a reply to it is decoded into the
  telemetry.
\<close>

theorem first_update_exchanges:
  "\<not> controller_started s \<and> \<not> no_reply p (inject_env ue) \<longrightarrow>
     update p ue input s =
       exchange_data p (exchange_env ue) input
         ((snd (soap_request p (inject_env ue) ''InjectUAVControllerInterface'' inject_body s))
            \<lparr>controller_started := True\<rparr>) \<and>
     sends (trace (update p ue input s)) =
       sends (trace s) @ [handshake_request] @
         (if fst (get_socket (create_os (exchange_env ue)) (pool_queue (exchange_env ue))) < 0
          then [] else [exchange_request p input]) \<and>
     state (update p ue input s) =
       (if no_reply p (exchange_env ue) then state s
        else parse_reply p
          (c_str (receive_until marker_in_c_str (reply_buffer_size p - 1) []
            (incoming (exchange_env ue))))
          (state s))"
proof
  assume h: "\<not> controller_started s \<and> \<not> no_reply p (inject_env ue)"
  then have u: "\<not> controller_started s" and r: "\<not> no_reply p (inject_env ue)" by simp_all
  from r have fd: "\<not> fst (get_socket (create_os (inject_env ue)) (pool_queue (inject_env ue))) < 0"
    by (simp add: no_reply_def start_fails_def)
  have 1: "update p ue input s =
       exchange_data p (exchange_env ue) input
         ((snd (soap_request p (inject_env ue) ''InjectUAVControllerInterface'' inject_body s))
            \<lparr>controller_started := True\<rparr>)"
    using u r by (simp add: update_uninit)
  have 2: "sends (trace (update p ue input s)) =
       sends (trace s) @ [handshake_request] @
         (if fst (get_socket (create_os (exchange_env ue)) (pool_queue (exchange_env ue))) < 0
          then [] else [exchange_request p input])"
    using update_uninit_sends [OF u, of p ue input] r fd by simp
  have 3: "state (update p ue input s) =
       (if no_reply p (exchange_env ue) then state s
        else parse_reply p
          (c_str (receive_until marker_in_c_str (reply_buffer_size p - 1) []
            (incoming (exchange_env ue))))
          (state s))"
    unfolding 1 by (simp add: exchange_data_state soap_request_fields)
  from 1 2 3 show "update p ue input s =
       exchange_data p (exchange_env ue) input
         ((snd (soap_request p (inject_env ue) ''InjectUAVControllerInterface'' inject_body s))
            \<lparr>controller_started := True\<rparr>) \<and>
     sends (trace (update p ue input s)) =
       sends (trace s) @ [handshake_request] @
         (if fst (get_socket (create_os (exchange_env ue)) (pool_queue (exchange_env ue))) < 0
          then [] else [exchange_request p input]) \<and>
     state (update p ue input s) =
       (if no_reply p (exchange_env ue) then state s
        else parse_reply p
          (c_str (receive_until marker_in_c_str (reply_buffer_size p - 1) []
            (incoming (exchange_env ue))))
          (state s))"
    by (intro conjI)
qed


theorem first_update_exchanges_witness:
  "sends (trace
      (update example_platform calls_reply example_input (RFInterface_init example_platform)))
     = [handshake_request, exchange_request example_platform example_input] \<and>
   state (update example_platform calls_reply example_input
      (RFInterface_init example_platform)) 0 = 12.3"
proof -
  let ?p = example_platform
  let ?s0 = "RFInterface_init example_platform"
  have u: "\<not> controller_started ?s0" by (simp add: RFInterface_init_def)
  have tr: "sends (trace ?s0) = []" by (simp add: RFInterface_init_def)
  have rp: "\<not> no_reply ?p (inject_env calls_reply)"
    by (simp add: calls_reply_def no_reply_def start_fails_def env_reply_def get_socket_def
        example_platform_def recv_data_def)
  have rx: "\<not> no_reply ?p (exchange_env calls_reply)"
    by (simp add: calls_reply_def no_reply_def start_fails_def env_reply_def get_socket_def
        example_platform_def recv_data_def)
  have fdx: "\<not> fst (get_socket (create_os (exchange_env calls_reply))
      (pool_queue (exchange_env calls_reply))) < 0"
    by (simp add: calls_reply_def env_reply_def get_socket_def)
  have rs: "c_str (receive_until marker_in_c_str (reply_buffer_size ?p - 1) []
      (incoming (exchange_env calls_reply))) =
      ''<m-airspeed-MPS>12.3</m-airspeed-MPS></SOAP-ENV:Envelope>''"
    by code_simp
  have d: "distinct (map snd (keytable ?p))" by (simp add: example_platform_def)
  have m0: "(''m-airspeed-MPS'', 0) \<in> set (keytable ?p)" by (simp add: example_platform_def)
  have s1: "strstr ''<m-airspeed-MPS>12.3</m-airspeed-MPS></SOAP-ENV:Envelope>''
      (''<'' @ ''m-airspeed-MPS'' @ ''>'') = Some 0"
    by code_simp
  have s2: "strstr (drop (0 + length (''<'' @ ''m-airspeed-MPS'' @ ''>''))
        ''<m-airspeed-MPS>12.3</m-airspeed-MPS></SOAP-ENV:Envelope>'')
      (''</'' @ ''m-airspeed-MPS'' @ ''>'') = Some 4"
    by code_simp
  have s3: "take 4 (drop (0 + length (''<'' @ ''m-airspeed-MPS'' @ ''>''))
        ''<m-airspeed-MPS>12.3</m-airspeed-MPS></SOAP-ENV:Envelope>'') = ''12.3''"
    by code_simp
  have ev: "extract_value (stod ?p)
      ''<m-airspeed-MPS>12.3</m-airspeed-MPS></SOAP-ENV:Envelope>'' ''m-airspeed-MPS'' = 12.3"
    unfolding extract_value_def Let_def s1 option.case s2 s3
    by (simp add: example_platform_def)
  have pr: "parse_reply ?p ''<m-airspeed-MPS>12.3</m-airspeed-MPS></SOAP-ENV:Envelope>''
      (state ?s0) 0 = 12.3"
    unfolding parse_reply_def parse_keys_entry [OF d m0] by (rule ev)
  note t = first_update_exchanges [of ?s0 ?p calls_reply example_input, rule_format,
      OF conjI [OF u rp]]
  note ta = t [THEN conjunct2, THEN conjunct1]
  note tb = t [THEN conjunct2, THEN conjunct2]
  from ta fdx tr have 1: "sends (trace (update ?p calls_reply example_input ?s0)) =
      [handshake_request, exchange_request ?p example_input]"
    by simp
  from tb rx have "state (update ?p calls_reply example_input ?s0) =
      parse_reply ?p ''<m-airspeed-MPS>12.3</m-airspeed-MPS></SOAP-ENV:Envelope>'' (state ?s0)"
    unfolding rs by simp
  with pr have 2: "state (update ?p calls_reply example_input ?s0) 0 = 12.3" by simp
  from 1 2 show ?thesis by (intro conjI)
qed
subsection \<open>The decoder on a response buffer\<close>





end
